theory Spec2Isabelle
  imports Main "HOL-Library.Word" "HOL-Library.Multiset"
begin

section \<open>Python values\<close>

text \<open>
  The scraper is dynamically typed: what \<open>response.json()\<close> returns, what
  \<open>process_csv_response\<close> builds and what \<open>process_traffic_data\<close> hands on are all
  ordinary Python values. They are modelled by one datatype. A \<open>dict\<close> is an association
  list in insertion order (Python dicts keep insertion order; their keys are distinct),
  a \<open>float\<close> is its IEEE-754 binary64 bit pattern, and \<open>None\<close> is \<open>PNone\<close>, which is
  also what \<open>fetch_dataset\<close> returns on failure.
\<close>

datatype pyval =
    PNone
  | PBool bool
  | PInt int
  | PFloat "64 word"
  | PStr string
  | PList "pyval list"
  | PDict "(string \<times> pyval) list"

text \<open>Truthiness, as \<open>if data:\<close> and \<open>if new_token:\<close> test it.\<close>

fun truthy :: "pyval \<Rightarrow> bool" where
  "truthy PNone = False"
| "truthy (PBool b) = b"
| "truthy (PInt n) = (n \<noteq> 0)"
| "truthy (PFloat w) = (take_bit 63 w \<noteq> 0)"
| "truthy (PStr s) = (s \<noteq> [])"
| "truthy (PList xs) = (xs \<noteq> [])"
| "truthy (PDict kvs) = (kvs \<noteq> [])"

text \<open>\<open>key in d\<close> for a dict \<open>d\<close>.\<close>

definition has_key :: "string \<Rightarrow> (string \<times> pyval) list \<Rightarrow> bool" where
  "has_key k kvs = (k \<in> set (map fst kvs))"

section \<open>String operations\<close>

text \<open>\<open>s.split(c)\<close> for a one-character separator: never an empty list.\<close>

fun split_on :: "char \<Rightarrow> string \<Rightarrow> string list" where
  "split_on c [] = [[]]"
| "split_on c (x # xs) =
     (if x = c then [] # split_on c xs
      else (case split_on c xs of
              [] \<Rightarrow> [[x]]
            | p # ps \<Rightarrow> (x # p) # ps))"

section \<open>DayPartitioner: \<open>process_traffic_data\<close>\<close>

text \<open>
  Lines 383 to 394: the day-key of a \<open>datum\<close> string. The part before the first space
  is kept when there is a space; a key with a slash that splits into exactly three parts
  has them joined by dashes.
\<close>

definition date_key_of :: "string \<Rightarrow> string" where
  "date_key_of date =
     (let date_key =
            (if CHR '' '' \<in> set date
             then (case split_on CHR '' '' date of [] \<Rightarrow> [] | p # _ \<Rightarrow> p)
             else date)
      in if CHR ''/'' \<in> set date_key
         then (case split_on CHR ''/'' date_key of
                 [p0, p1, p2] \<Rightarrow> p0 @ ''-'' @ p1 @ ''-'' @ p2
               | _ \<Rightarrow> date_key)
         else date_key)"

text \<open>
  The body of the loop decides, for one record, whether it is grouped and under which
  key. A record that is not a dict, or has no \<open>datum\<close>, is skipped. A \<open>datum\<close> that is
  not a string raises inside the \<open>try\<close> and the record is skipped as well:
  \<open>" " in date\<close> is a TypeError on None, a bool and a number; on a list or a dict either
  \<open>.split\<close> raises AttributeError or the value, kept as the key, is unhashable at
  \<open>date_key not in organized_data\<close>.
\<close>

definition record_key :: "pyval \<Rightarrow> string option" where
  "record_key record =
     (case record of
        PDict kvs \<Rightarrow>
          (case map_of kvs ''datum'' of
             Some (PStr date) \<Rightarrow> Some (date_key_of date)
           | _ \<Rightarrow> None)
      | _ \<Rightarrow> None)"

text \<open>
  Lines 396 to 399: \<open>organized_data[date_key].append(record)\<close>, creating the bucket at
  the end of the dict when the key is new.
\<close>

fun append_record :: "string \<Rightarrow> pyval \<Rightarrow> (string \<times> pyval list) list \<Rightarrow> (string \<times> pyval list) list" where
  "append_record k r [] = [(k, [r])]"
| "append_record k r ((k', rs) # d) =
     (if k' = k then (k', rs @ [r]) # d else (k', rs) # append_record k r d)"

text \<open>The loop of lines 376 to 405, with \<open>organized_data\<close> and \<open>skipped_records\<close> as state.\<close>

fun organize :: "pyval list \<Rightarrow> (string \<times> pyval list) list \<times> nat \<Rightarrow> (string \<times> pyval list) list \<times> nat" where
  "organize [] acc = acc"
| "organize (record # data) (organized_data, skipped_records) =
     (case record_key record of
        None \<Rightarrow> organize data (organized_data, skipped_records + 1)
      | Some date_key \<Rightarrow> organize data (append_record date_key record organized_data, skipped_records))"

definition day_buckets :: "pyval list \<Rightarrow> (string \<times> pyval list) list" where
  "day_buckets data = fst (organize data ([], 0))"

definition skipped_count :: "pyval list \<Rightarrow> nat" where
  "skipped_count data = snd (organize data ([], 0))"

text \<open>
  \<open>process_traffic_data\<close> returns a dict on every path: the text wrapper it was given,
  the buckets, or the wrapper for an unexpected shape. The model returns the items of
  that dict.
\<close>

definition process_traffic_data :: "pyval \<Rightarrow> (string \<times> pyval) list" where
  "process_traffic_data data =
     (case data of
        PDict kvs \<Rightarrow>
          (if has_key ''raw_text'' kvs \<or> has_key ''csv_text'' kvs then kvs
           else [(''unexpected_format'', PBool True), (''raw_data'', data)])
      | PList records \<Rightarrow> map (\<lambda>(k, rs). (k, PList rs)) (day_buckets records)
      | _ \<Rightarrow> [(''unexpected_format'', PBool True), (''raw_data'', data)])"

text \<open>
  The day-key format of the data model, from the spec's words: two digits, a dash, two
  digits, a dash, four digits.
\<close>

definition is_digit :: "char \<Rightarrow> bool" where
  "is_digit c = (c \<in> set ''0123456789'')"



text \<open>The invariant of the grouping loop: every record of a bucket has the bucket's key.\<close>

definition keyed :: "(string \<times> pyval list) list \<Rightarrow> bool" where
  "keyed org = (\<forall>(k, rs) \<in> set org. \<forall>r \<in> set rs. record_key r = Some k)"

section \<open>Text helpers\<close>

text \<open>
  \<open>str.strip()\<close> removes leading and trailing whitespace. A \<open>string\<close> here holds the
  code points below 256, and the whitespace among them is what \<open>str.isspace\<close> accepts:
  tab to carriage return, the four separators 28 to 31, the space, NEL (133) and the
  no-break space (160).
\<close>

definition is_space :: "char \<Rightarrow> bool" where
  "is_space c = (of_char c \<in> set [9, 10, 11, 12, 13, 28, 29, 30, 31, 32, 133, 160 :: nat])"

definition strip :: "string \<Rightarrow> string" where
  "strip s = rev (dropWhile is_space (rev (dropWhile is_space s)))"

text \<open>\<open>s.replace(a, b)\<close> for single characters.\<close>

definition replace_char :: "char \<Rightarrow> char \<Rightarrow> string \<Rightarrow> string" where
  "replace_char a b s = map (\<lambda>c. if c = a then b else c) s"

text \<open>
  Iterating \<open>io.StringIO(text)\<close> yields the lines of the text, each with its
  terminating line feed; the default \<open>newline\<close> of StringIO splits at line feeds only.
\<close>

fun lines_of :: "string \<Rightarrow> string list" where
  "lines_of [] = []"
| "lines_of (c # cs) =
     (if c = CHR 0x0A then [c] # lines_of cs
      else (case lines_of cs of
              [] \<Rightarrow> [[c]]
            | l # ls \<Rightarrow> (c # l) # ls))"

section \<open>The csv module\<close>

text \<open>
  \<open>csv.reader(f, delimiter=',', quotechar='"')\<close> is the state machine of CPython's
  \<open>Modules/_csv.c\<close> (version 3.11 and later, where a NUL is an ordinary character)
  under the dialect the scraper uses: minimal quoting on reading, doubled quotes, no
  escape character, no skipping of initial spaces, not strict. The states for escape
  characters are never entered and are left out. A field may hold at most
  \<open>field_limit\<close> characters.
\<close>

datatype parser_state =
    START_RECORD | START_FIELD | IN_FIELD | IN_QUOTED_FIELD | QUOTE_IN_QUOTED_FIELD | EAT_CRNL

record reader =
  state :: parser_state
  parsed_fields :: "string list"
  cur_field :: string

definition field_limit :: nat where
  "field_limit = 131072"

definition parse_reset :: reader where
  "parse_reset = \<lparr>state = START_RECORD, parsed_fields = [], cur_field = []\<rparr>"

definition parse_save_field :: "reader \<Rightarrow> reader" where
  "parse_save_field self = self\<lparr>parsed_fields := parsed_fields self @ [cur_field self], cur_field := []\<rparr>"

text \<open>\<open>parse_add_char\<close> fails with \<open>csv.Error\<close> (here \<open>None\<close>) on a field at the limit.\<close>

definition parse_add_char :: "reader \<Rightarrow> char \<Rightarrow> reader option" where
  "parse_add_char self c =
     (if length (cur_field self) \<ge> field_limit then None
      else Some (self\<lparr>cur_field := cur_field self @ [c]\<rparr>))"

definition is_newline :: "char \<Rightarrow> bool" where
  "is_newline c = (c = CHR 0x0A \<or> c = CHR 0x0D)"

text \<open>
  One step of the machine; the end of a line is the pseudo-character \<open>None\<close>. The case
  \<open>START_RECORD\<close> falls through to \<open>START_FIELD\<close> on an ordinary character.
\<close>

definition in_start_field :: "reader \<Rightarrow> char option \<Rightarrow> reader option" where
  "in_start_field self c =
     (case c of
        None \<Rightarrow> Some ((parse_save_field self)\<lparr>state := START_RECORD\<rparr>)
      | Some ch \<Rightarrow>
          if is_newline ch then Some ((parse_save_field self)\<lparr>state := EAT_CRNL\<rparr>)
          else if ch = CHR 0x22 then Some (self\<lparr>state := IN_QUOTED_FIELD\<rparr>)
          else if ch = CHR '','' then Some (parse_save_field self)
          else map_option (\<lambda>r. r\<lparr>state := IN_FIELD\<rparr>) (parse_add_char self ch))"

definition parse_process_char :: "reader \<Rightarrow> char option \<Rightarrow> reader option" where
  "parse_process_char self c =
     (case state self of
        START_RECORD \<Rightarrow>
          (case c of
             None \<Rightarrow> Some self
           | Some ch \<Rightarrow>
               if is_newline ch then Some (self\<lparr>state := EAT_CRNL\<rparr>)
               else in_start_field (self\<lparr>state := START_FIELD\<rparr>) c)
      | START_FIELD \<Rightarrow> in_start_field self c
      | IN_FIELD \<Rightarrow>
          (case c of
             None \<Rightarrow> Some ((parse_save_field self)\<lparr>state := START_RECORD\<rparr>)
           | Some ch \<Rightarrow>
               if is_newline ch then Some ((parse_save_field self)\<lparr>state := EAT_CRNL\<rparr>)
               else if ch = CHR '','' then Some ((parse_save_field self)\<lparr>state := START_FIELD\<rparr>)
               else parse_add_char self ch)
      | IN_QUOTED_FIELD \<Rightarrow>
          (case c of
             None \<Rightarrow> Some self
           | Some ch \<Rightarrow>
               if ch = CHR 0x22 then Some (self\<lparr>state := QUOTE_IN_QUOTED_FIELD\<rparr>)
               else parse_add_char self ch)
      | QUOTE_IN_QUOTED_FIELD \<Rightarrow>
          (case c of
             None \<Rightarrow> Some ((parse_save_field self)\<lparr>state := START_RECORD\<rparr>)
           | Some ch \<Rightarrow>
               if ch = CHR 0x22
               then map_option (\<lambda>r. r\<lparr>state := IN_QUOTED_FIELD\<rparr>) (parse_add_char self ch)
               else if ch = CHR '','' then Some ((parse_save_field self)\<lparr>state := START_FIELD\<rparr>)
               else if is_newline ch then Some ((parse_save_field self)\<lparr>state := EAT_CRNL\<rparr>)
               else map_option (\<lambda>r. r\<lparr>state := IN_FIELD\<rparr>) (parse_add_char self ch))
      | EAT_CRNL \<Rightarrow>
          (case c of
             None \<Rightarrow> Some (self\<lparr>state := START_RECORD\<rparr>)
           | Some ch \<Rightarrow> if is_newline ch then Some self else None))"

text \<open>The characters of one line, in order; \<open>None\<close> when a step raises.\<close>

fun feed_line :: "reader \<Rightarrow> string \<Rightarrow> reader option" where
  "feed_line self [] = Some self"
| "feed_line self (c # cs) =
     (case parse_process_char self (Some c) of
        None \<Rightarrow> None
      | Some self' \<Rightarrow> feed_line self' cs)"

text \<open>
  How iterating the reader ends: the input is exhausted (\<open>StopIteration\<close>) or a step
  raised \<open>csv.Error\<close>.
\<close>

datatype reader_end = StopIteration | CsvError

text \<open>
  \<open>Reader_iternext\<close>, called until it stops: the rows the reader yields, in order, and
  how the iteration ends. A row is complete when the machine is back in
  \<open>START_RECORD\<close> at the end of a line; otherwise the next line continues the record.
  At the end of the input a record in progress is yielded as it stands.
\<close>

fun read_rows :: "string list \<Rightarrow> reader \<Rightarrow> string list list \<times> reader_end" where
  "read_rows [] self =
     (if cur_field self \<noteq> [] \<or> state self = IN_QUOTED_FIELD
      then ([parsed_fields (parse_save_field self)], StopIteration)
      else ([], StopIteration))"
| "read_rows (line # rest) self =
     (case feed_line self line of
        None \<Rightarrow> ([], CsvError)
      | Some self1 \<Rightarrow>
          (case parse_process_char self1 None of
             None \<Rightarrow> ([], CsvError)
           | Some self2 \<Rightarrow>
               if state self2 \<noteq> START_RECORD then read_rows rest self2
               else (case read_rows rest parse_reset of
                       (rows, e) \<Rightarrow> (parsed_fields self2 # rows, e))))"

definition csv_reader :: "string \<Rightarrow> string list list \<times> reader_end" where
  "csv_reader text = read_rows (lines_of text) parse_reset"

text \<open>
  \<open>csv.writer\<close> with \<open>quoting=csv.QUOTE_ALL\<close>: every field in quotes, a quote inside
  doubled, fields joined by commas, the line terminator at the end. An empty row is the
  line terminator alone.
\<close>

definition double_quotes :: "string \<Rightarrow> string" where
  "double_quotes s = concat (map (\<lambda>c. if c = CHR 0x22 then [c, c] else [c]) s)"

definition quote_field :: "string \<Rightarrow> string" where
  "quote_field s = CHR 0x22 # double_quotes s @ [CHR 0x22]"

fun join_fields :: "string list \<Rightarrow> string" where
  "join_fields [] = []"
| "join_fields [f] = f"
| "join_fields (f # fs) = f @ CHR '','' # join_fields fs"

definition writerow :: "string \<Rightarrow> string list \<Rightarrow> string" where
  "writerow lineterminator row = join_fields (map quote_field row) @ lineterminator"

section \<open>ResponseNormalizer: \<open>process_csv_response\<close>\<close>

datatype output_format = OUTPUT_FORMAT_JSON | OUTPUT_FORMAT_CSV

text \<open>\<open>d[k] = v\<close> on a dict: an existing key keeps its place.\<close>

fun dict_set :: "string \<Rightarrow> pyval \<Rightarrow> (string \<times> pyval) list \<Rightarrow> (string \<times> pyval) list" where
  "dict_set k v [] = [(k, v)]"
| "dict_set k v ((k', v') # d) = (if k' = k then (k', v) # d else (k', v') # dict_set k v d)"

text \<open>Line 281: \<open>{headers[i]: row[i].strip() for i in range(len(headers))}\<close>.\<close>

definition make_entry :: "string list \<Rightarrow> string list \<Rightarrow> pyval" where
  "make_entry headers row =
     PDict (foldl (\<lambda>d (h, v). dict_set h (PStr (strip v)) d) [] (zip headers row))"

text \<open>Lines 279 and 297: \<open>if row and len(row) == len(headers)\<close>.\<close>

definition row_ok :: "string list \<Rightarrow> string list \<Rightarrow> bool" where
  "row_ok headers row = (row \<noteq> [] \<and> length row = length headers)"

text \<open>
  The reader is lazy in Python: \<open>next(csv_reader)\<close> takes the first row and the
  \<open>for\<close> loop the others. An empty input raises StopIteration at \<open>next\<close>; a
  \<open>csv.Error\<close>, at the first row or at a later one, leaves through the outer
  \<open>except Exception\<close>. All three return the \<open>raw_text\<close> wrapper around \<open>csv_text\<close>,
  which by then is the stripped text (line 261 reassigns it).
\<close>

definition process_csv_response :: "output_format \<Rightarrow> string \<Rightarrow> pyval" where
  "process_csv_response fmt text =
     (let csv_text = strip text
      in case csv_reader csv_text of
           ([], _) \<Rightarrow> PDict [(''raw_text'', PStr csv_text)]
         | (first_row # rows, e) \<Rightarrow>
             if first_row = [] then PDict [(''raw_text'', PStr csv_text)]
             else
               let headers = map strip first_row
               in if e = CsvError then PDict [(''raw_text'', PStr csv_text)]
                  else if fmt = OUTPUT_FORMAT_JSON
                  then PList (map (make_entry headers) (filter (row_ok headers) rows))
                  else PDict [(''csv_text'',
                         PStr (writerow [CHR 0x0A] headers
                               @ concat (map (writerow [CHR 0x0A]) (filter (row_ok headers) rows))))])"

section \<open>The remote service and the effects of a run\<close>

text \<open>
  A response of the service: its status, what \<open>response.json()\<close> returns (\<open>None\<close>
  when it raises JSONDecodeError) and its text. A request either raises (a
  \<open>requests.RequestException\<close> for \<open>session.get\<close>) or responds.
\<close>

record response =
  status_code :: int
  body_json :: "pyval option"
  body_text :: string

datatype reply = Raises | Responds response

text \<open>
  What a run does to the outside world is recorded in a trace: the requests, the sleeps,
  the two console lines of the batch loop that name a dataset, and the files written
  (a file written through \<open>json.dump\<close> holds the dumped value).
\<close>

datatype content = Text string | Json pyval

datatype event =
    HttpGet string
  | HttpPost string
  | Sleep nat
  | Print string
  | Write string content

record world =
  gets :: nat
  posts :: nat
  bearer :: "pyval option"
  trace :: "event list"

text \<open>
  The environment of a run: the reply to the \<open>n\<close>-th \<open>session.get\<close> and to the
  \<open>n\<close>-th \<open>requests.post\<close>, the global \<open>OUTPUT_FORMAT\<close>, the date of the run as
  \<open>strftime\<close> prints it, and \<open>str()\<close> on the values that are neither \<open>str\<close> nor
  \<open>None\<close>, which the csv writer applies to such a field.
\<close>

record env =
  http_get :: "nat \<Rightarrow> reply"
  http_post :: "nat \<Rightarrow> reply"
  OUTPUT_FORMAT :: output_format
  today :: string
  py_str :: "pyval \<Rightarrow> string"

definition BASE_URL :: string where
  "BASE_URL = ''https://webgis.linz.at/MAppEnterprise''"

definition API_URL :: string where
  "API_URL = BASE_URL @ ''/api/v1/featureanalyzer/datasets''"

definition AUTH_URL :: string where
  "AUTH_URL = BASE_URL @ ''/api/v1/oauth2/token''"

definition emit :: "event \<Rightarrow> world \<Rightarrow> world" where
  "emit e w = w\<lparr>trace := trace w @ [e]\<rparr>"

definition session_get :: "env \<Rightarrow> string \<Rightarrow> world \<Rightarrow> reply \<times> world" where
  "session_get env url w = (http_get env (gets w), emit (HttpGet url) (w\<lparr>gets := gets w + 1\<rparr>))"

section \<open>AuthManager: \<open>get_auth_token\<close>\<close>

text \<open>
  Lines 122 to 156. Every exception is caught and gives \<open>None\<close>, so a token comes back
  only from a status 200 whose body is a JSON object with the key \<open>access_token\<close>; on
  any other JSON value either the membership test is false or raises, or the indexing
  raises. The token found is set on the session and returned.
\<close>

definition get_auth_token :: "env \<Rightarrow> world \<Rightarrow> pyval \<times> world" where
  "get_auth_token env w =
     (let w1 = emit (HttpPost AUTH_URL) (w\<lparr>posts := posts w + 1\<rparr>)
      in case http_post env (posts w) of
           Raises \<Rightarrow> (PNone, w1)
         | Responds response \<Rightarrow>
             if status_code response = 200
             then (case body_json response of
                     Some (PDict auth_result) \<Rightarrow>
                       (case map_of auth_result ''access_token'' of
                          Some token \<Rightarrow> (token, w1\<lparr>bearer := Some token\<rparr>)
                        | None \<Rightarrow> (PNone, w1))
                   | _ \<Rightarrow> (PNone, w1))
             else (PNone, w1))"

section \<open>FetchClient: \<open>fetch_dataset\<close>\<close>

definition max_retries :: nat where
  "max_retries = 3"

definition dataset_url :: "string \<Rightarrow> string" where
  "dataset_url dataset_name = API_URL @ ''/'' @ dataset_name @ ''/values?attributes='' @ ''pkw,datum,ID''"

text \<open>
  One pass through the body of the \<open>while\<close> loop either returns from
  \<open>fetch_dataset\<close> or ends in one of the two places that count a retry (the status
  that is not 200, lines 211 to 221, and the handler of RequestException, lines 233 to
  245); both do the same with \<open>retry_count\<close>.
\<close>

datatype attempt = Returned pyval | Failed

text \<open>Lines 223 to 231: the body of a response with status 200.\<close>

definition read_body :: "env \<Rightarrow> response \<Rightarrow> pyval" where
  "read_body env response =
     (case body_json response of
        Some data \<Rightarrow> data
      | None \<Rightarrow> process_csv_response (OUTPUT_FORMAT env) (body_text response))"

text \<open>Lines 210 to 231.\<close>

definition check_status :: "env \<Rightarrow> response \<Rightarrow> attempt" where
  "check_status env response =
     (if status_code response \<noteq> 200 then Failed else Returned (read_body env response))"

text \<open>Lines 178 to 233: the \<open>try\<close> block.\<close>

definition try_once :: "env \<Rightarrow> string \<Rightarrow> world \<Rightarrow> attempt \<times> world" where
  "try_once env url w =
     (case session_get env url w of
        (Raises, w1) \<Rightarrow> (Failed, w1)
      | (Responds response, w1) \<Rightarrow>
          if status_code response = 401
          then (case get_auth_token env w1 of
                  (new_token, w2) \<Rightarrow>
                    if truthy new_token
                    then (case session_get env url w2 of
                            (Raises, w3) \<Rightarrow> (Failed, w3)
                          | (Responds response2, w3) \<Rightarrow>
                              if status_code response2 = 401 then (Returned PNone, w3)
                              else (check_status env response2, w3))
                    else (Returned PNone, w2))
          else (check_status env response, w1))"

text \<open>The loop of lines 177 to 247.\<close>

function fetch_loop :: "env \<Rightarrow> string \<Rightarrow> nat \<Rightarrow> world \<Rightarrow> pyval \<times> world" where
  "fetch_loop env url retry_count w =
     (if retry_count < max_retries
      then (case try_once env url w of
              (Returned data, w1) \<Rightarrow> (data, w1)
            | (Failed, w1) \<Rightarrow>
                if retry_count + 1 < max_retries
                then fetch_loop env url (retry_count + 1) (emit (Sleep (2 ^ (retry_count + 1))) w1)
                else (PNone, w1))
      else (PNone, w))"
  by pat_completeness auto
termination
  by (relation "measure (\<lambda>(env, url, retry_count, w). max_retries - retry_count)") auto

definition fetch_dataset :: "env \<Rightarrow> string \<Rightarrow> world \<Rightarrow> pyval \<times> world" where
  "fetch_dataset env dataset_name w = fetch_loop env (dataset_url dataset_name) 0 w"

section \<open>Persistence: \<open>save_dataset\<close> and \<open>save_data_by_day\<close>\<close>

text \<open>
  A failure to open or write a file is caught and logged in every place, so a write is
  recorded as attempted. \<open>f.write\<close> of a value that is not a string raises after the
  file was opened, which leaves the file empty.
\<close>

definition data_file :: "string \<Rightarrow> string" where
  "data_file name = ''data/'' @ name"

definition text_of :: "pyval option \<Rightarrow> content" where
  "text_of v = (case v of Some (PStr t) \<Rightarrow> Text t | _ \<Rightarrow> Text [])"

text \<open>Lines 324 to 350.\<close>

definition save_dataset :: "env \<Rightarrow> string \<Rightarrow> pyval \<Rightarrow> world \<Rightarrow> world" where
  "save_dataset env dataset_name data w =
     (case data of
        PDict kvs \<Rightarrow>
          if has_key ''csv_text'' kvs
          then emit (Write (data_file (dataset_name @ ''_'' @ today env @ ''.csv''))
                       (text_of (map_of kvs ''csv_text''))) w
          else emit (Write (data_file (dataset_name @ ''_'' @ today env @ ''.json'')) (Json data)) w
      | _ \<Rightarrow> emit (Write (data_file (dataset_name @ ''_'' @ today env @ ''.json'')) (Json data)) w)"

text \<open>
  \<open>csv.DictWriter(f, fieldnames=headers, quoting=csv.QUOTE_ALL)\<close>: the line terminator
  is CR LF; a field that is \<open>None\<close> is written empty, a string as it is, any other
  value through \<open>str()\<close>; a key missing from a row is written empty; a row with a key
  that is not a field name raises ValueError. \<open>writerows\<close> writes row by row, so the
  rows before the one that raises are in the file.
\<close>

definition crlf :: string where
  "crlf = [CHR 0x0D, CHR 0x0A]"

definition field_text :: "(pyval \<Rightarrow> string) \<Rightarrow> pyval option \<Rightarrow> string" where
  "field_text str v =
     (case v of
        None \<Rightarrow> []
      | Some PNone \<Rightarrow> []
      | Some (PStr s) \<Rightarrow> s
      | Some x \<Rightarrow> str x)"

fun writerows :: "(pyval \<Rightarrow> string) \<Rightarrow> string list \<Rightarrow> pyval list \<Rightarrow> string" where
  "writerows str fieldnames [] = []"
| "writerows str fieldnames (rowdict # rowdicts) =
     (case rowdict of
        PDict kvs \<Rightarrow>
          if set (map fst kvs) \<subseteq> set fieldnames
          then writerow crlf (map (\<lambda>key. field_text str (map_of kvs key)) fieldnames)
               @ writerows str fieldnames rowdicts
          else []
      | _ \<Rightarrow> [])"

text \<open>
  Lines 477 to 483: the text of the CSV file of one day, or \<open>None\<close> when no file is
  opened (the bucket is empty, or \<open>data[0].keys()\<close> raises).
\<close>

definition day_csv :: "(pyval \<Rightarrow> string) \<Rightarrow> pyval \<Rightarrow> string option" where
  "day_csv str data =
     (case data of
        PList (PDict first # rest) \<Rightarrow>
          (let headers = map fst first
           in Some (writerow crlf headers @ writerows str headers (PDict first # rest)))
      | _ \<Rightarrow> None)"

text \<open>The loop of lines 468 to 500.\<close>

fun save_days :: "env \<Rightarrow> string \<Rightarrow> (string \<times> pyval) list \<Rightarrow> world \<Rightarrow> world" where
  "save_days env dataset_name [] w = w"
| "save_days env dataset_name ((date, data) # items) w =
     (let date_str = replace_char CHR ''/'' CHR ''-'' date
      in if OUTPUT_FORMAT env = OUTPUT_FORMAT_CSV
         then (case day_csv (py_str env) data of
                 Some csv \<Rightarrow>
                   save_days env dataset_name items
                     (emit (Write (data_file (dataset_name @ ''_'' @ date_str @ ''.csv'')) (Text csv)) w)
               | None \<Rightarrow> save_days env dataset_name items w)
         else save_days env dataset_name items
                (emit (Write (data_file (dataset_name @ ''_'' @ date_str @ ''.json'')) (Json data)) w))"

text \<open>Lines 425 to 503.\<close>

definition save_data_by_day :: "env \<Rightarrow> (string \<times> pyval) list \<Rightarrow> string \<Rightarrow> world \<Rightarrow> world" where
  "save_data_by_day env organized_data dataset_name w =
     (if has_key ''csv_text'' organized_data then w
      else if has_key ''raw_text'' organized_data
      then (if OUTPUT_FORMAT env = OUTPUT_FORMAT_CSV
            then emit (Write (data_file (dataset_name @ ''_raw_'' @ today env @ ''.csv''))
                         (text_of (map_of organized_data ''raw_text''))) w
            else (case map_of organized_data ''raw_text'' of
                    Some raw \<Rightarrow>
                      emit (Write (data_file (dataset_name @ ''_raw_'' @ today env @ ''.json'')) (Json raw)) w
                  | None \<Rightarrow> w))
      else if has_key ''unexpected_format'' organized_data
      then emit (Write (data_file (dataset_name @ ''_unexpected_'' @ today env @ ''.json''))
                   (case map_of organized_data ''raw_data'' of
                      Some raw \<Rightarrow> Json raw
                    | None \<Rightarrow> Text [])) w
      else save_days env dataset_name organized_data w)"

section \<open>PipelineOrchestrator: \<open>fetch_and_save_all_datasets\<close>\<close>

text \<open>
  Lines 519 to 533: what the loop does with the value \<open>fetch_dataset\<close> returned. The
  test of line 519 is the truthiness of that value.
\<close>

definition after_fetch :: "env \<Rightarrow> string \<Rightarrow> pyval \<Rightarrow> bool \<times> nat \<Rightarrow> world \<Rightarrow> (bool \<times> nat) \<times> world" where
  "after_fetch env dataset data acc w =
     (case acc of
        (success, successful_datasets) \<Rightarrow>
          if truthy data
          then (let w2 = save_dataset env dataset data w;
                    organized_data = process_traffic_data data;
                    w3 = save_data_by_day env organized_data dataset w2
                in ((True, successful_datasets + 1), emit (Sleep 2) w3))
          else ((success, successful_datasets),
                emit (Sleep 2) (emit (Print (''Failed to fetch data for dataset: '' @ dataset)) w)))"

definition fetching :: "string \<Rightarrow> event" where
  "fetching dataset = Print (CHR 0x0A # ''Fetching dataset: '' @ dataset)"

text \<open>The loop of lines 516 to 533, with \<open>success\<close> and \<open>successful_datasets\<close> as state.\<close>

fun fetch_and_save_loop :: "env \<Rightarrow> string list \<Rightarrow> bool \<times> nat \<Rightarrow> world \<Rightarrow> (bool \<times> nat) \<times> world" where
  "fetch_and_save_loop env [] acc w = (acc, w)"
| "fetch_and_save_loop env (dataset # datasets) acc w =
     (case fetch_dataset env dataset (emit (fetching dataset) w) of
        (data, w1) \<Rightarrow>
          (case after_fetch env dataset data acc w1 of
             (acc', w') \<Rightarrow> fetch_and_save_loop env datasets acc' w'))"

text \<open>
  Lines 505 to 536: the result is \<open>success\<close>; the count of successful datasets is what
  the last line prints.
\<close>

definition fetch_and_save_all_datasets :: "env \<Rightarrow> string list \<Rightarrow> world \<Rightarrow> (bool \<times> nat) \<times> world" where
  "fetch_and_save_all_datasets env DATASETS w = fetch_and_save_loop env DATASETS (False, 0) w"

text \<open>
  For stating what a run did: the values \<open>fetch_dataset\<close> returned for the datasets of
  the run, in order.
\<close>

fun payloads :: "env \<Rightarrow> string list \<Rightarrow> bool \<times> nat \<Rightarrow> world \<Rightarrow> pyval list" where
  "payloads env [] acc w = []"
| "payloads env (dataset # datasets) acc w =
     (case fetch_dataset env dataset (emit (fetching dataset) w) of
        (data, w1) \<Rightarrow>
          (case after_fetch env dataset data acc w1 of
             (acc', w') \<Rightarrow> data # payloads env datasets acc' w'))"

text \<open>The events of a trace that are file writes, and those that announce a dataset.\<close>

fun is_write :: "event \<Rightarrow> bool" where
  "is_write (Write f c) = True"
| "is_write _ = False"

definition is_fetching :: "event \<Rightarrow> bool" where
  "is_fetching e = (case e of Print s \<Rightarrow> take 19 s = CHR 0x0A # ''Fetching dataset: '' | _ \<Rightarrow> False)"

definition world0 :: world where
  "world0 = \<lparr>gets = 0, posts = 0, bearer = None, trace = []\<rparr>"

text \<open>
  For the proofs about the reader: what \<open>read_rows\<close> does at the end of a line, after
  the characters of the line.
\<close>

abbreviation rd :: "parser_state \<Rightarrow> string list \<Rightarrow> string \<Rightarrow> reader" where
  "rd s done cur \<equiv> \<lparr>state = s, parsed_fields = done, cur_field = cur\<rparr>"

definition line_end :: "reader \<Rightarrow> string list \<Rightarrow> string list list \<times> reader_end" where
  "line_end self1 rest =
     (case parse_process_char self1 None of
        None \<Rightarrow> ([], CsvError)
      | Some self2 \<Rightarrow>
          if state self2 \<noteq> START_RECORD then read_rows rest self2
          else (case read_rows rest parse_reset of
                  (rows, e) \<Rightarrow> (parsed_fields self2 # rows, e)))"

text \<open>
  For the round trip through CSV: a string that \<open>strip\<close> leaves as it is and that fits
  in a field of the reader, and a record whose field names are \<open>hs\<close>, in that order,
  and whose values are such strings.
\<close>

definition clean :: "string \<Rightarrow> bool" where
  "clean s = (strip s = s \<and> length s \<le> field_limit)"

definition clean_record :: "string list \<Rightarrow> pyval \<Rightarrow> bool" where
  "clean_record hs r =
     (case r of
        PDict kvs \<Rightarrow>
          map fst kvs = hs
          \<and> list_all (\<lambda>kv. case snd kv of PStr s \<Rightarrow> clean s | _ \<Rightarrow> False) kvs
      | _ \<Rightarrow> False)"

text \<open>The row the writer makes of a record whose keys are the field names, in order.\<close>

definition row_of :: "(pyval \<Rightarrow> string) \<Rightarrow> pyval \<Rightarrow> string list" where
  "row_of str r = (case r of PDict kvs \<Rightarrow> map (\<lambda>kv. field_text str (Some (snd kv))) kvs | _ \<Rightarrow> [])"

text \<open>
  For the proofs about traces: \<open>w'\<close> continues the trace of \<open>w\<close> with events that all
  satisfy \<open>P\<close>; the events that print a line or write a file, and the others, which
  are the requests and the sleeps.
\<close>

definition appends :: "(event \<Rightarrow> bool) \<Rightarrow> world \<Rightarrow> world \<Rightarrow> bool" where
  "appends P w w' = (\<exists>evs. trace w' = trace w @ evs \<and> (\<forall>e \<in> set evs. P e))"

fun is_io :: "event \<Rightarrow> bool" where
  "is_io (Print s) = True"
| "is_io (Write f c) = True"
| "is_io _ = False"

definition quiet :: "event \<Rightarrow> bool" where
  "quiet e = (\<not> is_io e)"

section \<open>Sample environments\<close>

text \<open>
  Concrete runs for the examples below. None of them writes a value through \<open>str()\<close>,
  so \<open>py_str\<close> is a placeholder in all of them.
\<close>

text \<open>A service that answers every request with 503.\<close>

definition env_unavailable :: env where
  "env_unavailable =
     \<lparr>http_get = (\<lambda>n. Responds \<lparr>status_code = 503, body_json = None, body_text = []\<rparr>),
      http_post = (\<lambda>n. Raises),
      OUTPUT_FORMAT = OUTPUT_FORMAT_JSON,
      today = ''2024-05-03'',
      py_str = (\<lambda>v. ''?'')\<rparr>"

text \<open>
  A service whose first reply is 401 and whose later replies are a list of one record,
  with a token endpoint that hands out a token.
\<close>

definition env_renewed :: env where
  "env_renewed =
     \<lparr>http_get = (\<lambda>n. if n = 0
                       then Responds \<lparr>status_code = 401, body_json = None, body_text = []\<rparr>
                       else Responds \<lparr>status_code = 200,
                                      body_json = Some (PList [PDict [(''datum'', PStr ''2024-05-01'')]]),
                                      body_text = []\<rparr>),
      http_post = (\<lambda>n. Responds \<lparr>status_code = 200,
                                    body_json = Some (PDict [(''access_token'', PStr ''awse_1'')]),
                                    body_text = []\<rparr>),
      OUTPUT_FORMAT = OUTPUT_FORMAT_JSON,
      today = ''2024-05-03'',
      py_str = (\<lambda>v. ''?'')\<rparr>"

text \<open>A service that answers with an empty JSON list.\<close>

definition env_empty_list :: env where
  "env_empty_list =
     \<lparr>http_get = (\<lambda>n. Responds \<lparr>status_code = 200, body_json = Some (PList []), body_text = ''[]''\<rparr>),
      http_post = (\<lambda>n. Raises),
      OUTPUT_FORMAT = OUTPUT_FORMAT_JSON,
      today = ''2024-05-03'',
      py_str = (\<lambda>v. ''?'')\<rparr>"

text \<open>A service that answers with delimited text that has a header row and no data row.\<close>

definition env_header_only :: env where
  "env_header_only =
     \<lparr>http_get = (\<lambda>n. Responds \<lparr>status_code = 200, body_json = None, body_text = ''pkw,datum,ID''\<rparr>),
      http_post = (\<lambda>n. Raises),
      OUTPUT_FORMAT = OUTPUT_FORMAT_JSON,
      today = ''2024-05-03'',
      py_str = (\<lambda>v. ''?'')\<rparr>"

text \<open>
  A service whose first reply is 401 and whose later replies are a list of two records,
  with a token endpoint that is out of reach.
\<close>

definition env_expired :: env where
  "env_expired =
     \<lparr>http_get = (\<lambda>n. if n = 0
                       then Responds \<lparr>status_code = 401, body_json = None, body_text = []\<rparr>
                       else Responds \<lparr>status_code = 200,
                                      body_json = Some (PList [PDict [(''datum'', PStr ''05/01/2024 10:00'')],
                                                               PDict [(''datum'', PStr ''2024-05-02'')]]),
                                      body_text = []\<rparr>),
      http_post = (\<lambda>n. Raises),
      OUTPUT_FORMAT = OUTPUT_FORMAT_JSON,
      today = ''2024-05-03'',
      py_str = (\<lambda>v. ''?'')\<rparr>"

text \<open>
  A service that answers 401, then 503 to the request sent with the new token, then 401
  again, then a list of one record, with a token endpoint that hands out a token each
  time.
\<close>

definition env_rejected :: env where
  "env_rejected =
     \<lparr>http_get = (\<lambda>n. if n = 0 \<or> n = 2
                       then Responds \<lparr>status_code = 401, body_json = None, body_text = []\<rparr>
                       else if n = 1
                       then Responds \<lparr>status_code = 503, body_json = None, body_text = []\<rparr>
                       else Responds \<lparr>status_code = 200,
                                      body_json = Some (PList [PDict [(''datum'', PStr ''2024-05-01'')]]),
                                      body_text = []\<rparr>),
      http_post = (\<lambda>n. Responds \<lparr>status_code = 200,
                                    body_json = Some (PDict [(''access_token'', PStr ''awse_1'')]),
                                    body_text = []\<rparr>),
      OUTPUT_FORMAT = OUTPUT_FORMAT_JSON,
      today = ''2024-05-03'',
      py_str = (\<lambda>v. ''?'')\<rparr>"

section \<open>Properties of the day-key\<close>

lemma split_on_not_Nil: "split_on c s \<noteq> []"
  by (induction s) (auto split: list.splits)

lemma split_on_no_sep: "c \<notin> set s \<Longrightarrow> split_on c s = [s]"
  by (induction s) auto

lemma split_on_append:
  "c \<notin> set a \<Longrightarrow> split_on c (a @ c # rest) = a # split_on c rest"
  by (induction a) auto

lemma split_on_hd_takeWhile:
  "split_on c s = p # ps \<Longrightarrow> p = takeWhile (\<lambda>x. x \<noteq> c) s"
  by (induction s arbitrary: p ps) (auto split: if_splits list.splits simp: split_on_not_Nil)

lemma takeWhile_no_sep: "c \<notin> set s \<Longrightarrow> takeWhile (\<lambda>x. x \<noteq> c) s = s"
  by (induction s) auto

lemma split_on_length: "length (split_on c s) = Suc (length (filter (\<lambda>x. x = c) s))"
  by (induction s) (auto split: list.splits simp: split_on_not_Nil)

lemma date_portion:
  "(if CHR '' '' \<in> set date
    then (case split_on CHR '' '' date of [] \<Rightarrow> [] | p # _ \<Rightarrow> p)
    else date) = takeWhile (\<lambda>x. x \<noteq> CHR '' '') date"
proof (cases "CHR '' '' \<in> set date")
  case True
  obtain p ps where "split_on CHR '' '' date = p # ps"
    using split_on_not_Nil by (cases "split_on CHR '' '' date") auto
  then show ?thesis using True split_on_hd_takeWhile by fastforce
next
  case False
  then show ?thesis by (simp add: takeWhile_no_sep)
qed

lemma date_key_of_alt:
  "date_key_of date =
     (let d = takeWhile (\<lambda>x. x \<noteq> CHR '' '') date
      in if CHR ''/'' \<in> set d
         then (case split_on CHR ''/'' d of
                 [p0, p1, p2] \<Rightarrow> p0 @ ''-'' @ p1 @ ''-'' @ p2
               | _ \<Rightarrow> d)
         else d)"
  unfolding date_key_of_def date_portion ..

lemma split_on_three:
  assumes "c \<notin> set p0" "c \<notin> set p1" "c \<notin> set p2"
  shows "split_on c (p0 @ c # p1 @ c # p2) = [p0, p1, p2]"
  using assms by (simp add: split_on_append split_on_no_sep)

lemma split_on_threeD:
  assumes "split_on c s = [p0, p1, p2]"
  shows "s = p0 @ c # p1 @ c # p2 \<and> c \<notin> set p0 \<union> set p1 \<union> set p2"
proof -
  have join: "s = concat (map (\<lambda>p. p @ [c]) (butlast (split_on c s))) @ last (split_on c s)" for s
    by (induction s) (auto split: list.splits simp: split_on_not_Nil)
  have nosep: "\<forall>p \<in> set (split_on c s). c \<notin> set p" for s
    by (induction s) (auto split: list.splits simp: split_on_not_Nil)
  show ?thesis using join [of s] nosep [of s] assms by simp
qed

lemma record_key_datum:
  "map_of kvs ''datum'' = Some (PStr date) \<Longrightarrow> record_key (PDict kvs) = Some (date_key_of date)"
  by (simp add: record_key_def)

lemma record_key_SomeD:
  "record_key r = Some k \<Longrightarrow>
     \<exists>kvs date. r = PDict kvs \<and> map_of kvs ''datum'' = Some (PStr date) \<and> date_key_of date = k"
  by (auto simp: record_key_def split: pyval.splits option.splits)

lemma takeWhile_prefix_sep:
  "c \<notin> set d \<Longrightarrow> takeWhile (\<lambda>x. x \<noteq> c) (d @ c # rest) = d"
  by (induction d) auto

section \<open>Properties of the grouping loop\<close>

lemma append_record_keys:
  "set (map fst (append_record k r org)) = insert k (set (map fst org))"
  by (induction k r org rule: append_record.induct) (simp, force)

lemma append_record_distinct:
  "distinct (map fst org) \<Longrightarrow> distinct (map fst (append_record k r org))"
proof (induction org)
  case Nil
  then show ?case by simp
next
  case (Cons e org)
  obtain k' rs where e: "e = (k', rs)" by (cases e)
  have "k' \<noteq> k \<Longrightarrow> k' \<notin> set (map fst (append_record k r org))"
    using Cons.prems e by (simp only: append_record_keys) auto
  then show ?case using Cons e by auto
qed

lemma append_record_mem:
  "(k', rs') \<in> set (append_record k r org) \<Longrightarrow>
     (k', rs') \<in> set org \<or> (k' = k \<and> (rs' = [r] \<or> (\<exists>rs. (k, rs) \<in> set org \<and> rs' = rs @ [r])))"
  by (induction org) (auto split: if_splits)

lemma append_record_has:
  "\<exists>rs. (k, rs) \<in> set (append_record k r org) \<and> r \<in> set rs"
proof (induction k r org rule: append_record.induct)
  case (1 k r)
  then show ?case by simp
next
  case (2 k r k' rs d)
  show ?case
  proof (cases "k' = k")
    case True
    then have "(k, rs @ [r]) \<in> set (append_record k r ((k', rs) # d))" by simp
    then show ?thesis by (intro exI [of _ "rs @ [r]"]) simp
  next
    case False
    then show ?thesis using 2 by auto
  qed
qed

lemma append_record_keeps:
  "(k', rs') \<in> set org \<Longrightarrow> r' \<in> set rs' \<Longrightarrow>
     \<exists>rs. (k', rs) \<in> set (append_record k r org) \<and> r' \<in> set rs"
proof (induction k r org rule: append_record.induct)
  case (1 k r)
  then show ?case by simp
next
  case (2 k r k0 rs0 d)
  show ?case
  proof (cases "(k', rs') = (k0, rs0)")
    case True
    show ?thesis
    proof (cases "k0 = k")
      case True
      with \<open>(k', rs') = (k0, rs0)\<close> have "(k', rs' @ [r]) \<in> set (append_record k r ((k0, rs0) # d))"
        by simp
      then show ?thesis using 2(3) by (intro exI [of _ "rs' @ [r]"]) simp
    next
      case False
      with True have "(k', rs') \<in> set (append_record k r ((k0, rs0) # d))" by simp
      then show ?thesis using 2(3) by blast
    qed
  next
    case False
    then have mem: "(k', rs') \<in> set d" using 2(2) by auto
    show ?thesis
    proof (cases "k0 = k")
      case True
      then have "(k', rs') \<in> set (append_record k r ((k0, rs0) # d))" using mem by simp
      then show ?thesis using 2(3) by blast
    next
      case False
      then obtain rs where "(k', rs) \<in> set (append_record k r d)" "r' \<in> set rs"
        using 2(1) mem 2(3) by blast
      then show ?thesis using False by auto
    qed
  qed
qed

lemma append_record_size:
  "sum_list (map (\<lambda>(k, rs). length rs) (append_record k r org))
     = Suc (sum_list (map (\<lambda>(k, rs). length rs) org))"
  by (induction org) auto

lemma append_record_mset:
  "mset (concat (map snd (append_record k r org))) = add_mset r (mset (concat (map snd org)))"
  by (induction org) auto

lemma keyed_append_record:
  "keyed org \<Longrightarrow> record_key r = Some k \<Longrightarrow> keyed (append_record k r org)"
  unfolding keyed_def by (fastforce dest!: append_record_mem)

lemma organize_keyed:
  "keyed org \<Longrightarrow> keyed (fst (organize data (org, n)))"
proof (induction data arbitrary: org n)
  case Nil
  then show ?case by simp
next
  case (Cons r data)
  then show ?case by (cases "record_key r") (auto intro: keyed_append_record)
qed

lemma organize_distinct:
  "distinct (map fst org) \<Longrightarrow> distinct (map fst (fst (organize data (org, n))))"
proof (induction data arbitrary: org n)
  case Nil
  then show ?case by simp
next
  case (Cons r data)
  then show ?case by (cases "record_key r") (auto intro: append_record_distinct)
qed

lemma organize_size:
  "sum_list (map (\<lambda>(k, rs). length rs) (fst (organize data (org, n))))
     + length (filter (\<lambda>r. record_key r = None) data)
   = sum_list (map (\<lambda>(k, rs). length rs) org) + length data"
proof (induction data arbitrary: org n)
  case Nil
  then show ?case by simp
next
  case (Cons r data)
  show ?case
  proof (cases "record_key r")
    case None
    then show ?thesis using Cons.IH [of org "n + 1"] by simp
  next
    case (Some k)
    then show ?thesis using Cons.IH [of "append_record k r org" n]
      by (simp add: append_record_size)
  qed
qed

lemma organize_skipped:
  "snd (organize data (org, n)) = n + length (filter (\<lambda>r. record_key r = None) data)"
proof (induction data arbitrary: org n)
  case Nil
  then show ?case by simp
next
  case (Cons r data)
  then show ?case by (cases "record_key r") auto
qed

lemma organize_mset:
  "mset (concat (map snd (fst (organize data (org, n)))))
     = mset (concat (map snd org)) + mset (filter (\<lambda>r. record_key r \<noteq> None) data)"
proof (induction data arbitrary: org n)
  case Nil
  then show ?case by simp
next
  case (Cons r data)
  then show ?case by (cases "record_key r") (auto simp: append_record_mset)
qed

lemma organize_keeps:
  "(k, rs) \<in> set org \<Longrightarrow> r \<in> set rs \<Longrightarrow>
     \<exists>rs'. (k, rs') \<in> set (fst (organize data (org, n))) \<and> r \<in> set rs'"
proof (induction data arbitrary: org n rs)
  case Nil
  then show ?case by auto
next
  case (Cons x data)
  show ?case
  proof (cases "record_key x")
    case None
    then show ?thesis using Cons.IH [OF Cons.prems] by simp
  next
    case (Some kx)
    obtain rs1 where "(k, rs1) \<in> set (append_record kx x org)" "r \<in> set rs1"
      using append_record_keeps [OF Cons.prems] by blast
    then show ?thesis using Cons.IH Some by simp
  qed
qed

lemma organize_grouped:
  "r \<in> set data \<Longrightarrow> record_key r = Some k \<Longrightarrow>
     \<exists>rs. (k, rs) \<in> set (fst (organize data (org, n))) \<and> r \<in> set rs"
proof (induction data arbitrary: org n)
  case Nil
  then show ?case by simp
next
  case (Cons x data)
  show ?case
  proof (cases "x = r")
    case True
    obtain rs1 where "(k, rs1) \<in> set (append_record k r org)" "r \<in> set rs1"
      using append_record_has by blast
    then show ?thesis using organize_keeps True Cons.prems by simp
  next
    case False
    then have "r \<in> set data" using Cons.prems by simp
    then show ?thesis using Cons.IH Cons.prems by (cases "record_key x") auto
  qed
qed

section \<open>Properties of the fetch loop\<close>

declare fetch_loop.simps [simp del]

lemma try_once_other_status:
  assumes "http_get env (gets w) = Responds r" "status_code r \<noteq> 200" "status_code r \<noteq> 401"
  shows "try_once env url w = (Failed, emit (HttpGet url) (w\<lparr>gets := gets w + 1\<rparr>))"
  using assms by (simp add: try_once_def session_get_def check_status_def)

lemma try_once_raises:
  assumes "http_get env (gets w) = Raises"
  shows "try_once env url w = (Failed, emit (HttpGet url) (w\<lparr>gets := gets w + 1\<rparr>))"
  using assms by (simp add: try_once_def session_get_def)

lemma fetch_loop_failed:
  assumes "try_once env url w = (Failed, w1)" "retry_count < max_retries"
  shows "fetch_loop env url retry_count w =
     (if retry_count + 1 < max_retries
      then fetch_loop env url (retry_count + 1) (emit (Sleep (2 ^ (retry_count + 1))) w1)
      else (PNone, w1))"
  using assms by (subst fetch_loop.simps) simp

lemma fetch_loop_returned:
  assumes "try_once env url w = (Returned data, w1)" "retry_count < max_retries"
  shows "fetch_loop env url retry_count w = (data, w1)"
  using assms by (subst fetch_loop.simps) simp

lemma gets_emit [simp]: "gets (emit e w) = gets w"
  and posts_emit [simp]: "posts (emit e w) = posts w"
  and bearer_emit [simp]: "bearer (emit e w) = bearer w"
  and trace_emit [simp]: "trace (emit e w) = trace w @ [e]"
  by (simp_all add: emit_def)

lemma get_auth_token_world:
  assumes "get_auth_token env w = (token, w2)"
  shows "gets w2 = gets w \<and> posts w2 = posts w + 1 \<and> trace w2 = trace w @ [HttpPost AUTH_URL]"
  using assms
  by (auto simp: get_auth_token_def Let_def split: reply.splits if_splits option.splits pyval.splits)

lemma try_once_ok:
  assumes "http_get env (gets w) = Responds r" "status_code r = 200"
  shows "try_once env url w = (Returned (read_body env r), emit (HttpGet url) (w\<lparr>gets := gets w + 1\<rparr>))"
  using assms by (simp add: try_once_def session_get_def check_status_def)

lemma try_once_unauthorized:
  assumes "http_get env (gets w) = Responds r" "status_code r = 401"
    and "get_auth_token env (emit (HttpGet url) (w\<lparr>gets := gets w + 1\<rparr>)) = (new_token, w2)"
  shows "try_once env url w =
     (if truthy new_token
      then (case http_get env (gets w + 1) of
              Raises \<Rightarrow> (Failed, emit (HttpGet url) (w2\<lparr>gets := gets w + 2\<rparr>))
            | Responds r2 \<Rightarrow>
                if status_code r2 = 401 then (Returned PNone, emit (HttpGet url) (w2\<lparr>gets := gets w + 2\<rparr>))
                else (check_status env r2, emit (HttpGet url) (w2\<lparr>gets := gets w + 2\<rparr>)))
      else (Returned PNone, w2))"
proof -
  have g: "gets w2 = gets w + 1"
    using get_auth_token_world [OF assms(3)] by simp
  show ?thesis
    using assms g by (simp add: try_once_def session_get_def split: reply.splits)
qed
lemma appends_refl: "appends P w w"
  by (simp add: appends_def)

lemma appends_trans: "appends P w w1 \<Longrightarrow> appends P w1 w2 \<Longrightarrow> appends P w w2"
  unfolding appends_def by fastforce

lemma appends_emit: "P e \<Longrightarrow> appends P w (emit e w)"
  by (simp add: appends_def)

lemma appends_filter:
  "appends P w w' \<Longrightarrow> (\<And>e. P e \<Longrightarrow> \<not> Q e) \<Longrightarrow> filter Q (trace w') = filter Q (trace w)"
  unfolding appends_def by auto

lemma quiet_not_write: "quiet e \<Longrightarrow> \<not> is_write e"
  by (cases e) (simp_all add: quiet_def)

lemma quiet_not_fetching: "quiet e \<Longrightarrow> \<not> is_fetching e"
  by (cases e) (simp_all add: quiet_def is_fetching_def)

lemma session_get_appends:
  "session_get env url w = (reply, w') \<Longrightarrow> appends quiet w w'"
  by (auto simp: session_get_def appends_def quiet_def emit_def)

lemma get_auth_token_appends:
  "get_auth_token env w = (token, w') \<Longrightarrow> appends quiet w w'"
  using get_auth_token_world [of env w token w']
  by (simp add: appends_def quiet_def)

lemma try_once_appends:
  assumes "try_once env url w = (a, w')"
  shows "appends quiet w w'"
proof -
  obtain reply w1 where g1: "session_get env url w = (reply, w1)" by (cases "session_get env url w")
  obtain token w2 where au: "get_auth_token env w1 = (token, w2)" by (cases "get_auth_token env w1")
  obtain reply2 w3 where g2: "session_get env url w2 = (reply2, w3)" by (cases "session_get env url w2")
  note s1 = session_get_appends [OF g1]
  note s2 = appends_trans [OF s1 get_auth_token_appends [OF au]]
  note s3 = appends_trans [OF s2 session_get_appends [OF g2]]
  show ?thesis
    using assms g1 au g2 s1 s2 s3
    by (auto simp: try_once_def split: reply.splits if_splits)
qed

lemma fetch_loop_appends:
  "fetch_loop env url retry_count w = (data, w') \<Longrightarrow> appends quiet w w'"
proof (induction env url retry_count w rule: fetch_loop.induct)
  case (1 env url retry_count w)
  show ?case
  proof (cases "retry_count < max_retries")
    case False
    then show ?thesis using "1.prems" by (subst (asm) fetch_loop.simps) (simp add: appends_refl)
  next
    case True
    obtain a w1 where t: "try_once env url w = (a, w1)" by (cases "try_once env url w")
    note q = try_once_appends [OF t]
    show ?thesis
    proof (cases a)
      case (Returned d)
      then show ?thesis using "1.prems" t True q
        by (subst (asm) fetch_loop.simps) simp
    next
      case Failed
      show ?thesis
      proof (cases "retry_count + 1 < max_retries")
        case False
        then show ?thesis using "1.prems" t True q Failed
          by (subst (asm) fetch_loop.simps) simp
      next
        case again: True
        have eq: "fetch_loop env url (retry_count + 1) (emit (Sleep (2 ^ (retry_count + 1))) w1) = (data, w')"
          using "1.prems" t True Failed again by (subst (asm) fetch_loop.simps) simp
        have "appends quiet (emit (Sleep (2 ^ (retry_count + 1))) w1) w'"
          using "1.IH" [OF True t [symmetric] _ again eq] Failed by simp
        moreover have "appends quiet w1 (emit (Sleep (2 ^ (retry_count + 1))) w1)"
          by (rule appends_emit) (simp add: quiet_def)
        ultimately show ?thesis using q appends_trans by blast
      qed
    qed
  qed
qed

lemma fetch_dataset_appends:
  "fetch_dataset env dataset w = (data, w') \<Longrightarrow> appends quiet w w'"
  unfolding fetch_dataset_def by (rule fetch_loop_appends)
lemma save_dataset_trace:
  "\<exists>f c. trace (save_dataset env dataset data w) = trace w @ [Write f c]"
  by (auto simp: save_dataset_def split: pyval.splits)

lemma save_days_trace:
  "trace (save_days env dataset items w) = trace w @ trace (save_days env dataset items world0)"
proof (induction items arbitrary: w)
  case Nil
  then show ?case by (simp add: world0_def)
next
  case (Cons item items)
  obtain date data where item: "item = (date, data)" by (cases item)
  have step: "trace (save_days env dataset items (emit e w'))
      = trace w' @ e # trace (save_days env dataset items world0)" for e w'
    using Cons.IH [of "emit e w'"] by simp
  show ?case
    unfolding item
    by (simp add: Let_def step Cons.IH [of w] split: option.splits) (simp add: world0_def)
qed

lemma save_days_writes:
  "\<forall>e \<in> set (trace (save_days env dataset items world0)). is_write e"
proof (induction items)
  case Nil
  then show ?case by (simp add: world0_def)
next
  case (Cons item items)
  obtain date data where item: "item = (date, data)" by (cases item)
  have step: "trace (save_days env dataset items (emit e world0))
      = e # trace (save_days env dataset items world0)" for e
    using save_days_trace [of env dataset items "emit e world0"] by (simp add: world0_def)
  show ?case
    unfolding item using Cons.IH
    by (simp add: Let_def step split: option.splits)
qed

lemma save_data_by_day_trace:
  "trace (save_data_by_day env organized_data dataset w)
     = trace w @ trace (save_data_by_day env organized_data dataset world0)"
  using save_days_trace [of env dataset organized_data w]
  by (auto simp: save_data_by_day_def world0_def split: option.splits)

lemma save_data_by_day_writes:
  "\<forall>e \<in> set (trace (save_data_by_day env organized_data dataset world0)). is_write e"
  using save_days_writes [of env dataset organized_data]
  by (auto simp: save_data_by_day_def world0_def split: option.splits)

lemma not_fetching_write: "is_write e \<Longrightarrow> \<not> is_fetching e"
  by (cases e) (simp_all add: is_fetching_def)

lemma is_fetching_fetching [simp]: "is_fetching (fetching dataset)"
  by (simp add: is_fetching_def fetching_def)

lemma after_fetch_falsy:
  "\<not> truthy data \<Longrightarrow>
     after_fetch env dataset data acc w
       = (acc, emit (Sleep 2) (emit (Print (''Failed to fetch data for dataset: '' @ dataset)) w))"
  by (cases acc) (simp add: after_fetch_def)

lemma after_fetch_truthy:
  assumes "truthy data"
  shows "fst (after_fetch env dataset data (success, n) w) = (True, n + 1)"
    and "trace (snd (after_fetch env dataset data (success, n) w))
       = trace (save_dataset env dataset data w)
         @ trace (save_data_by_day env (process_traffic_data data) dataset world0) @ [Sleep 2]"
  using assms
    save_data_by_day_trace [of env "process_traffic_data data" dataset "save_dataset env dataset data w"]
  by (simp_all add: after_fetch_def Let_def)

lemma after_fetch_fetching:
  "filter is_fetching (trace (snd (after_fetch env dataset data acc w))) = filter is_fetching (trace w)"
proof (cases "truthy data")
  case True
  obtain success n where acc: "acc = (success, n)" by (cases acc)
  obtain f c where raw: "trace (save_dataset env dataset data w) = trace w @ [Write f c]"
    using save_dataset_trace by blast
  have "filter is_fetching (trace (save_data_by_day env (process_traffic_data data) dataset world0)) = []"
    using save_data_by_day_writes not_fetching_write by (auto simp: filter_empty_conv)
  then show ?thesis
    unfolding acc after_fetch_truthy(2) [OF True] raw
    by (simp add: is_fetching_def)
next
  case False
  then show ?thesis by (simp add: after_fetch_falsy is_fetching_def)
qed

lemma after_fetch_success:
  "fst (after_fetch env dataset data (success, n) w)
     = (success \<or> truthy data, if truthy data then n + 1 else n)"
  by (simp add: after_fetch_def Let_def)

lemma loop_fetching:
  "filter is_fetching (trace (snd (fetch_and_save_loop env datasets acc w)))
     = filter is_fetching (trace w) @ map fetching datasets"
proof (induction datasets arbitrary: acc w)
  case Nil
  then show ?case by simp
next
  case (Cons dataset datasets)
  obtain data w1 where f: "fetch_dataset env dataset (emit (fetching dataset) w) = (data, w1)"
    by (cases "fetch_dataset env dataset (emit (fetching dataset) w)")
  obtain acc' w' where a: "after_fetch env dataset data acc w1 = (acc', w')"
    by (cases "after_fetch env dataset data acc w1")
  have "filter is_fetching (trace w1) = filter is_fetching (trace (emit (fetching dataset) w))"
    using appends_filter [OF fetch_dataset_appends [OF f], of is_fetching] quiet_not_fetching
    by blast
  moreover have "filter is_fetching (trace w') = filter is_fetching (trace w1)"
    using after_fetch_fetching [of env dataset data acc w1] a by simp
  ultimately show ?case using f a Cons.IH [of acc' w'] by simp
qed

lemma loop_payloads:
  "length (payloads env datasets acc w) = length datasets
   \<and> fst (fetch_and_save_loop env datasets (success, n) w)
       = (success \<or> (\<exists>data \<in> set (payloads env datasets (success, n) w). truthy data),
          n + length (filter truthy (payloads env datasets (success, n) w)))"
proof (induction datasets arbitrary: acc success n w)
  case Nil
  then show ?case by simp
next
  case (Cons dataset datasets)
  have len: "length (payloads env (dataset # datasets) acc w) = length (dataset # datasets)" for acc
  proof -
    obtain data w1 where f: "fetch_dataset env dataset (emit (fetching dataset) w) = (data, w1)"
      by (cases "fetch_dataset env dataset (emit (fetching dataset) w)")
    obtain acc' w' where a: "after_fetch env dataset data acc w1 = (acc', w')"
      by (cases "after_fetch env dataset data acc w1")
    show ?thesis using f a Cons.IH [where acc = acc' and w = w'] by simp
  qed
  obtain data w1 where f: "fetch_dataset env dataset (emit (fetching dataset) w) = (data, w1)"
    by (cases "fetch_dataset env dataset (emit (fetching dataset) w)")
  obtain acc' w' where a: "after_fetch env dataset data (success, n) w1 = (acc', w')"
    by (cases "after_fetch env dataset data (success, n) w1")
  have acc': "acc' = (success \<or> truthy data, if truthy data then n + 1 else n)"
    using after_fetch_success [of env dataset data success n w1] a by simp
  show ?case
    using f a len
      Cons.IH [where success = "success \<or> truthy data"
          and n = "if truthy data then n + 1 else n" and w = w']
    by (auto simp: acc')
qed
lemma read_rows_Cons:
  "read_rows (line # rest) st =
     (case feed_line st line of None \<Rightarrow> ([], CsvError) | Some st1 \<Rightarrow> line_end st1 rest)"
  by (simp add: line_end_def split: option.splits)

lemma lines_of_Nil_iff: "lines_of cs = [] \<longleftrightarrow> cs = []"
  by (cases cs) (auto split: list.splits)

lemma read_char:
  assumes "c \<noteq> CHR 0x0A" "cs \<noteq> []"
  shows "read_rows (lines_of (c # cs)) st =
     (case parse_process_char st (Some c) of
        None \<Rightarrow> ([], CsvError)
      | Some st' \<Rightarrow> read_rows (lines_of cs) st')"
proof -
  obtain l ls where l: "lines_of cs = l # ls"
    using assms(2) lines_of_Nil_iff by (cases "lines_of cs") auto
  have eq: "lines_of (c # cs) = (c # l) # ls" using assms(1) l by simp
  show ?thesis
    unfolding eq l read_rows_Cons by (auto split: option.splits)
qed

lemma read_newline:
  "read_rows (lines_of (CHR 0x0A # cs)) st =
     (case parse_process_char st (Some CHR 0x0A) of
        None \<Rightarrow> ([], CsvError)
      | Some st' \<Rightarrow> line_end st' (lines_of cs))"
  by (simp add: read_rows_Cons del: read_rows.simps split: option.splits)

lemma read_last_char:
  assumes "c \<noteq> CHR 0x0A"
  shows "read_rows (lines_of [c]) st =
     (case parse_process_char st (Some c) of
        None \<Rightarrow> ([], CsvError)
      | Some st' \<Rightarrow> line_end st' [])"
  using assms by (simp add: read_rows_Cons del: read_rows.simps split: option.splits)
lemma in_quoted_char:
  assumes "c \<noteq> CHR 0x22" "length cur < field_limit"
  shows "read_rows (lines_of (c # cs)) (rd IN_QUOTED_FIELD done cur)
     = read_rows (lines_of cs) (rd IN_QUOTED_FIELD done (cur @ [c]))"
proof -
  have step: "parse_process_char (rd IN_QUOTED_FIELD done cur) (Some c)
      = Some (rd IN_QUOTED_FIELD done (cur @ [c]))"
    using assms by (simp add: parse_process_char_def parse_add_char_def)
  have eol: "line_end (rd IN_QUOTED_FIELD done (cur @ [c])) ls
      = read_rows ls (rd IN_QUOTED_FIELD done (cur @ [c]))" for ls
    by (simp add: line_end_def parse_process_char_def)
  show ?thesis
  proof (cases "c = CHR 0x0A")
    case True
    then show ?thesis using read_newline [of cs "rd IN_QUOTED_FIELD done cur"] step eol by simp
  next
    case False
    show ?thesis
    proof (cases "cs = []")
      case True
      then show ?thesis
        using read_last_char [OF False, of "rd IN_QUOTED_FIELD done cur"] step eol
        by (simp del: read_rows.simps lines_of.simps) simp
    next
      case nonempty: False
      then show ?thesis
        using read_char [OF False nonempty, of "rd IN_QUOTED_FIELD done cur"] step by simp
    qed
  qed
qed

lemma in_quoted_quote_quote:
  assumes "length cur < field_limit"
  shows "read_rows (lines_of (CHR 0x22 # CHR 0x22 # cs)) (rd IN_QUOTED_FIELD done cur)
     = read_rows (lines_of cs) (rd IN_QUOTED_FIELD done (cur @ [CHR 0x22]))"
proof -
  have s1: "parse_process_char (rd IN_QUOTED_FIELD done cur) (Some CHR 0x22)
      = Some (rd QUOTE_IN_QUOTED_FIELD done cur)"
    by (simp add: parse_process_char_def)
  have s2: "parse_process_char (rd QUOTE_IN_QUOTED_FIELD done cur) (Some CHR 0x22)
      = Some (rd IN_QUOTED_FIELD done (cur @ [CHR 0x22]))"
    using assms by (simp add: parse_process_char_def parse_add_char_def)
  have eol: "line_end (rd IN_QUOTED_FIELD done (cur @ [CHR 0x22])) ls
      = read_rows ls (rd IN_QUOTED_FIELD done (cur @ [CHR 0x22]))" for ls
    by (simp add: line_end_def parse_process_char_def)
  have "read_rows (lines_of (CHR 0x22 # CHR 0x22 # cs)) (rd IN_QUOTED_FIELD done cur)
      = read_rows (lines_of (CHR 0x22 # cs)) (rd QUOTE_IN_QUOTED_FIELD done cur)"
    using read_char [of "CHR 0x22" "CHR 0x22 # cs" "rd IN_QUOTED_FIELD done cur"] s1 by simp
  also have "\<dots> = read_rows (lines_of cs) (rd IN_QUOTED_FIELD done (cur @ [CHR 0x22]))"
  proof (cases "cs = []")
    case True
    then show ?thesis
      using read_last_char [of "CHR 0x22" "rd QUOTE_IN_QUOTED_FIELD done cur"] s2 eol
      by (simp del: read_rows.simps lines_of.simps) simp
  next
    case False
    then show ?thesis
      using read_char [of "CHR 0x22" cs "rd QUOTE_IN_QUOTED_FIELD done cur"] s2 by simp
  qed
  finally show ?thesis .
qed

lemma in_quoted_content:
  assumes "length (cur @ f) \<le> field_limit"
  shows "read_rows (lines_of (double_quotes f @ rest)) (rd IN_QUOTED_FIELD done cur)
     = read_rows (lines_of rest) (rd IN_QUOTED_FIELD done (cur @ f))"
  using assms
proof (induction f arbitrary: cur)
  case Nil
  then show ?case by (simp add: double_quotes_def)
next
  case (Cons c f)
  have lim: "length cur < field_limit" using Cons.prems by simp
  have next_: "length ((cur @ [c]) @ f) \<le> field_limit" using Cons.prems by simp
  show ?case
  proof (cases "c = CHR 0x22")
    case True
    have "double_quotes (c # f) @ rest = CHR 0x22 # CHR 0x22 # double_quotes f @ rest"
      using True by (simp add: double_quotes_def)
    then show ?thesis
      using in_quoted_quote_quote [OF lim, of "double_quotes f @ rest" "done"]
        Cons.IH [OF next_] True by simp
  next
    case False
    have "double_quotes (c # f) @ rest = c # double_quotes f @ rest"
      using False by (simp add: double_quotes_def)
    then show ?thesis
      using in_quoted_char [OF False lim, of "double_quotes f @ rest" "done"]
        Cons.IH [OF next_] by simp
  qed
qed
lemma line_end_in_quoted:
  "line_end (rd IN_QUOTED_FIELD done cur) ls = read_rows ls (rd IN_QUOTED_FIELD done cur)"
  by (simp add: line_end_def parse_process_char_def)

lemma open_quote_first:
  "read_rows (lines_of (CHR 0x22 # rest)) parse_reset
     = read_rows (lines_of rest) (rd IN_QUOTED_FIELD [] [])"
proof -
  have s: "parse_process_char parse_reset (Some CHR 0x22) = Some (rd IN_QUOTED_FIELD [] [])"
    by (simp add: parse_process_char_def parse_reset_def in_start_field_def is_newline_def)
  show ?thesis
  proof (cases "rest = []")
    case True
    then show ?thesis
      using read_last_char [of "CHR 0x22" parse_reset] s line_end_in_quoted
      by (simp del: read_rows.simps lines_of.simps) simp
  next
    case False
    then show ?thesis using read_char [of "CHR 0x22" rest parse_reset] s by simp
  qed
qed

lemma close_comma_open:
  "read_rows (lines_of (CHR 0x22 # CHR '','' # CHR 0x22 # rest)) (rd IN_QUOTED_FIELD done cur)
     = read_rows (lines_of rest) (rd IN_QUOTED_FIELD (done @ [cur]) [])"
proof -
  have s1: "parse_process_char (rd IN_QUOTED_FIELD done cur) (Some CHR 0x22)
      = Some (rd QUOTE_IN_QUOTED_FIELD done cur)"
    by (simp add: parse_process_char_def)
  have s2: "parse_process_char (rd QUOTE_IN_QUOTED_FIELD done cur) (Some CHR '','')
      = Some (rd START_FIELD (done @ [cur]) [])"
    by (simp add: parse_process_char_def parse_save_field_def)
  have s3: "parse_process_char (rd START_FIELD (done @ [cur]) []) (Some CHR 0x22)
      = Some (rd IN_QUOTED_FIELD (done @ [cur]) [])"
    by (simp add: parse_process_char_def in_start_field_def is_newline_def)
  have "read_rows (lines_of (CHR 0x22 # CHR '','' # CHR 0x22 # rest)) (rd IN_QUOTED_FIELD done cur)
      = read_rows (lines_of (CHR '','' # CHR 0x22 # rest)) (rd QUOTE_IN_QUOTED_FIELD done cur)"
    using read_char [of "CHR 0x22" "CHR '','' # CHR 0x22 # rest" "rd IN_QUOTED_FIELD done cur"] s1
    by simp
  also have "\<dots> = read_rows (lines_of (CHR 0x22 # rest)) (rd START_FIELD (done @ [cur]) [])"
    using read_char [of "CHR '',''" "CHR 0x22 # rest" "rd QUOTE_IN_QUOTED_FIELD done cur"] s2
    by simp
  also have "\<dots> = read_rows (lines_of rest) (rd IN_QUOTED_FIELD (done @ [cur]) [])"
  proof (cases "rest = []")
    case True
    then show ?thesis
      using read_last_char [of "CHR 0x22" "rd START_FIELD (done @ [cur]) []"] s3 line_end_in_quoted
      by (simp del: read_rows.simps lines_of.simps) simp
  next
    case False
    then show ?thesis
      using read_char [of "CHR 0x22" rest "rd START_FIELD (done @ [cur]) []"] s3 by simp
  qed
  finally show ?thesis .
qed

lemma close_crlf:
  "read_rows (lines_of (CHR 0x22 # crlf @ rest)) (rd IN_QUOTED_FIELD done cur)
     = (case read_rows (lines_of rest) parse_reset of (rows, e) \<Rightarrow> ((done @ [cur]) # rows, e))"
proof -
  have s1: "parse_process_char (rd IN_QUOTED_FIELD done cur) (Some CHR 0x22)
      = Some (rd QUOTE_IN_QUOTED_FIELD done cur)"
    by (simp add: parse_process_char_def)
  have s2: "parse_process_char (rd QUOTE_IN_QUOTED_FIELD done cur) (Some CHR 0x0D)
      = Some (rd EAT_CRNL (done @ [cur]) [])"
    by (simp add: parse_process_char_def parse_save_field_def is_newline_def)
  have s3: "parse_process_char (rd EAT_CRNL (done @ [cur]) []) (Some CHR 0x0A)
      = Some (rd EAT_CRNL (done @ [cur]) [])"
    by (simp add: parse_process_char_def is_newline_def)
  have s4: "line_end (rd EAT_CRNL (done @ [cur]) []) ls
      = (case read_rows ls parse_reset of (rows, e) \<Rightarrow> ((done @ [cur]) # rows, e))" for ls
    by (simp add: line_end_def parse_process_char_def)
  have "read_rows (lines_of (CHR 0x22 # crlf @ rest)) (rd IN_QUOTED_FIELD done cur)
      = read_rows (lines_of (CHR 0x0D # CHR 0x0A # rest)) (rd QUOTE_IN_QUOTED_FIELD done cur)"
    using read_char [of "CHR 0x22" "CHR 0x0D # CHR 0x0A # rest" "rd IN_QUOTED_FIELD done cur"] s1
    by (simp add: crlf_def)
  also have "\<dots> = read_rows (lines_of (CHR 0x0A # rest)) (rd EAT_CRNL (done @ [cur]) [])"
    using read_char [of "CHR 0x0D" "CHR 0x0A # rest" "rd QUOTE_IN_QUOTED_FIELD done cur"] s2
    by simp
  also have "\<dots> = (case read_rows (lines_of rest) parse_reset of
                      (rows, e) \<Rightarrow> ((done @ [cur]) # rows, e))"
    using read_newline [of rest "rd EAT_CRNL (done @ [cur]) []"] s3 s4 by simp
  finally show ?thesis .
qed

lemma close_at_end:
  "read_rows (lines_of [CHR 0x22]) (rd IN_QUOTED_FIELD done cur) = ([done @ [cur]], StopIteration)"
proof -
  have s1: "parse_process_char (rd IN_QUOTED_FIELD done cur) (Some CHR 0x22)
      = Some (rd QUOTE_IN_QUOTED_FIELD done cur)"
    by (simp add: parse_process_char_def)
  have s2: "line_end (rd QUOTE_IN_QUOTED_FIELD done cur) [] = ([done @ [cur]], StopIteration)"
    by (simp add: line_end_def parse_process_char_def parse_save_field_def parse_reset_def)
  show ?thesis
    using read_last_char [of "CHR 0x22" "rd IN_QUOTED_FIELD done cur"] s1 s2 by simp
qed
declare lines_of.simps [simp del] read_rows.simps [simp del]

lemma tl_quote_field: "tl (quote_field f) = double_quotes f @ [CHR 0x22]"
  by (simp add: quote_field_def)

lemma join_quoted_Cons:
  "join_fields (map quote_field (f # fs)) = CHR 0x22 # tl (join_fields (map quote_field (f # fs)))"
  by (cases fs) (simp_all add: quote_field_def)

lemma tl_join_more:
  "tl (join_fields (map quote_field (f # g # fs)))
     = double_quotes f @ CHR 0x22 # CHR '','' # CHR 0x22 # tl (join_fields (map quote_field (g # fs)))"
proof -
  have "join_fields (map quote_field (f # g # fs))
      = quote_field f @ CHR '','' # join_fields (map quote_field (g # fs))"
    by simp
  also have "\<dots> = quote_field f @ CHR '','' # CHR 0x22 # tl (join_fields (map quote_field (g # fs)))"
    using join_quoted_Cons [of g fs] by simp
  finally show ?thesis by (simp add: quote_field_def)
qed

lemma read_fields_crlf:
  assumes "\<forall>x \<in> set (f # fs). length x \<le> field_limit"
  shows "read_rows (lines_of (tl (join_fields (map quote_field (f # fs))) @ crlf @ rest))
       (rd IN_QUOTED_FIELD done [])
     = (case read_rows (lines_of rest) parse_reset of (rows, e) \<Rightarrow> ((done @ f # fs) # rows, e))"
  using assms
proof (induction fs arbitrary: f "done")
  case Nil
  have "read_rows (lines_of (double_quotes f @ CHR 0x22 # crlf @ rest)) (rd IN_QUOTED_FIELD done [])
      = read_rows (lines_of (CHR 0x22 # crlf @ rest)) (rd IN_QUOTED_FIELD done f)"
    using in_quoted_content [of "[]" f "CHR 0x22 # crlf @ rest" "done"] Nil.prems by simp
  then show ?case by (simp add: tl_quote_field close_crlf)
next
  case (Cons g fs)
  let ?t = "tl (join_fields (map quote_field (g # fs))) @ crlf @ rest"
  have "read_rows (lines_of (double_quotes f @ CHR 0x22 # CHR '','' # CHR 0x22 # ?t))
        (rd IN_QUOTED_FIELD done [])
      = read_rows (lines_of (CHR 0x22 # CHR '','' # CHR 0x22 # ?t)) (rd IN_QUOTED_FIELD done f)"
    using in_quoted_content [of "[]" f "CHR 0x22 # CHR '','' # CHR 0x22 # ?t" "done"] Cons.prems
    by simp
  also have "\<dots> = read_rows (lines_of ?t) (rd IN_QUOTED_FIELD (done @ [f]) [])"
    by (rule close_comma_open)
  also have "\<dots> = (case read_rows (lines_of rest) parse_reset of
                      (rows, e) \<Rightarrow> (((done @ [f]) @ g # fs) # rows, e))"
    using Cons.prems by (intro Cons.IH) simp
  finally show ?case unfolding tl_join_more by simp
qed

lemma read_fields_end:
  assumes "\<forall>x \<in> set (f # fs). length x \<le> field_limit"
  shows "read_rows (lines_of (tl (join_fields (map quote_field (f # fs))))) (rd IN_QUOTED_FIELD done [])
     = ([done @ f # fs], StopIteration)"
  using assms
proof (induction fs arbitrary: f "done")
  case Nil
  have "read_rows (lines_of (double_quotes f @ [CHR 0x22])) (rd IN_QUOTED_FIELD done [])
      = read_rows (lines_of [CHR 0x22]) (rd IN_QUOTED_FIELD done f)"
    using in_quoted_content [of "[]" f "[CHR 0x22]" "done"] Nil.prems by simp
  then show ?case by (simp add: tl_quote_field close_at_end)
next
  case (Cons g fs)
  let ?t = "tl (join_fields (map quote_field (g # fs)))"
  have "read_rows (lines_of (double_quotes f @ CHR 0x22 # CHR '','' # CHR 0x22 # ?t))
        (rd IN_QUOTED_FIELD done [])
      = read_rows (lines_of (CHR 0x22 # CHR '','' # CHR 0x22 # ?t)) (rd IN_QUOTED_FIELD done f)"
    using in_quoted_content [of "[]" f "CHR 0x22 # CHR '','' # CHR 0x22 # ?t" "done"] Cons.prems
    by simp
  also have "\<dots> = read_rows (lines_of ?t) (rd IN_QUOTED_FIELD (done @ [f]) [])"
    by (rule close_comma_open)
  also have "\<dots> = ([(done @ [f]) @ g # fs], StopIteration)"
    using Cons.prems by (intro Cons.IH) simp
  finally show ?case unfolding tl_join_more by simp
qed

lemma read_row_crlf:
  assumes "row \<noteq> []" "\<forall>x \<in> set row. length x \<le> field_limit"
  shows "read_rows (lines_of (writerow crlf row @ rest)) parse_reset
     = (case read_rows (lines_of rest) parse_reset of (rows, e) \<Rightarrow> (row # rows, e))"
proof -
  obtain f fs where row: "row = f # fs" using assms(1) by (cases row) auto
  have "writerow crlf row @ rest
      = CHR 0x22 # tl (join_fields (map quote_field (f # fs))) @ crlf @ rest"
    unfolding writerow_def row using join_quoted_Cons [of f fs] by simp
  moreover have "read_rows (lines_of (CHR 0x22 # tl (join_fields (map quote_field (f # fs))) @ crlf @ rest))
        parse_reset
      = (case read_rows (lines_of rest) parse_reset of (rows, e) \<Rightarrow> (row # rows, e))"
    using read_fields_crlf [of f fs rest "[]"] assms(2) row by (simp add: open_quote_first)
  ultimately show ?thesis by simp
qed

lemma read_row_end:
  assumes "row \<noteq> []" "\<forall>x \<in> set row. length x \<le> field_limit"
  shows "read_rows (lines_of (join_fields (map quote_field row))) parse_reset = ([row], StopIteration)"
proof -
  obtain f fs where row: "row = f # fs" using assms(1) by (cases row) auto
  have "read_rows (lines_of (CHR 0x22 # tl (join_fields (map quote_field (f # fs))))) parse_reset
      = ([f # fs], StopIteration)"
    using read_fields_end [of f fs "[]"] assms(2) row by (simp add: open_quote_first)
  then show ?thesis
    unfolding row using join_quoted_Cons [of f fs] by simp
qed

lemma read_rows_text:
  assumes "\<forall>row \<in> set (r # rows). row \<noteq> [] \<and> (\<forall>x \<in> set row. length x \<le> field_limit)"
  shows "read_rows (lines_of (concat (map (writerow crlf) (butlast (r # rows)))
                              @ join_fields (map quote_field (last (r # rows))))) parse_reset
     = (r # rows, StopIteration)"
  using assms
proof (induction rows arbitrary: r)
  case Nil
  then show ?case using read_row_end [of r] by simp
next
  case (Cons r' rows)
  have "read_rows (lines_of (writerow crlf r @ concat (map (writerow crlf) (butlast (r' # rows)))
                              @ join_fields (map quote_field (last (r' # rows))))) parse_reset
      = (r # r' # rows, StopIteration)"
    using read_row_crlf [of r] Cons.prems Cons.IH [of r'] by simp
  then show ?case by simp
qed
lemma not_space_quote: "\<not> is_space CHR 0x22"
  by (simp add: is_space_def)

lemma strip_core:
  assumes "X \<noteq> []" "\<not> is_space (hd X)" "\<not> is_space (last X)"
  shows "strip (X @ crlf) = X"
proof -
  obtain x xs where X: "X = x # xs" using assms(1) by (cases X) auto
  have front: "dropWhile is_space (X @ crlf) = X @ crlf"
    using assms(2) X by simp
  have "rev X \<noteq> []" "hd (rev X) = last X"
    using assms(1) by (simp_all add: hd_rev)
  then obtain y ys where R: "rev X = y # ys" "y = last X"
    by (cases "rev X") auto
  have sp: "is_space CHR 0x0A" "is_space CHR 0x0D"
    by (simp_all add: is_space_def)
  have "dropWhile is_space (rev (X @ crlf)) = dropWhile is_space (y # ys)"
    using R(1) sp by (simp add: crlf_def)
  also have "\<dots> = y # ys" using R(2) assms(3) by simp
  finally have "dropWhile is_space (rev (X @ crlf)) = rev X" using R(1) by simp
  then show ?thesis by (simp add: strip_def front)
qed

lemma join_quoted_last:
  assumes "row \<noteq> []"
  shows "join_fields (map quote_field row) \<noteq> [] \<and> last (join_fields (map quote_field row)) = CHR 0x22"
  using assms
proof (induction row rule: join_fields.induct)
  case 1
  then show ?case by simp
next
  case (2 f)
  then show ?case by (simp add: quote_field_def)
next
  case (3 f g fs)
  then show ?case by simp
qed

lemma rows_text_split:
  "concat (map (writerow crlf) (r # rows))
     = (concat (map (writerow crlf) (butlast (r # rows)))
        @ join_fields (map quote_field (last (r # rows)))) @ crlf"
  by (induction rows arbitrary: r) (simp_all add: writerow_def)

lemma rows_text_hd:
  assumes "r \<noteq> []"
  shows "hd (concat (map (writerow crlf) (butlast (r # rows)))
             @ join_fields (map quote_field (last (r # rows)))) = CHR 0x22"
proof -
  obtain f fs where r: "r = f # fs" using assms by (cases r) auto
  have j: "join_fields (map quote_field r) = CHR 0x22 # tl (join_fields (map quote_field r))"
    unfolding r by (rule join_quoted_Cons)
  show ?thesis
  proof (cases rows)
    case Nil
    then show ?thesis using j by (simp del: join_fields.simps) (metis list.sel(1))
  next
    case (Cons r' rows')
    have "writerow crlf r = CHR 0x22 # tl (join_fields (map quote_field r)) @ crlf"
      unfolding writerow_def by (subst j) simp
    then show ?thesis using Cons by simp
  qed
qed

lemma strip_rows_text:
  assumes "\<forall>row \<in> set (r # rows). row \<noteq> []"
  shows "strip (concat (map (writerow crlf) (r # rows)))
     = concat (map (writerow crlf) (butlast (r # rows)))
       @ join_fields (map quote_field (last (r # rows)))"
proof -
  let ?X = "concat (map (writerow crlf) (butlast (r # rows)))
       @ join_fields (map quote_field (last (r # rows)))"
  have l: "last (r # rows) \<noteq> []" using assms last_in_set [of "r # rows"] by blast
  have ne: "?X \<noteq> []" using join_quoted_last [OF l] by simp
  have "hd ?X = CHR 0x22" using rows_text_hd [of r rows] assms by simp
  then have h: "\<not> is_space (hd ?X)" using not_space_quote by metis
  have "last ?X = CHR 0x22" using join_quoted_last [OF l] by simp
  then have e: "\<not> is_space (last ?X)" using not_space_quote by metis
  show ?thesis
    unfolding rows_text_split by (rule strip_core [OF ne h e])
qed

lemma csv_reader_rows_text:
  assumes "\<forall>row \<in> set (r # rows). row \<noteq> [] \<and> (\<forall>x \<in> set row. length x \<le> field_limit)"
  shows "csv_reader (strip (concat (map (writerow crlf) (r # rows)))) = (r # rows, StopIteration)"
proof -
  have "\<forall>row \<in> set (r # rows). row \<noteq> []" using assms by blast
  then show ?thesis
    unfolding csv_reader_def by (simp only: strip_rows_text read_rows_text [OF assms])
qed
lemma dict_set_new: "k \<notin> set (map fst d) \<Longrightarrow> dict_set k v d = d @ [(k, v)]"
  by (induction d) auto

lemma entry_fold:
  assumes "distinct (map fst d @ hs)" "length vs = length hs"
  shows "foldl (\<lambda>d (h, v). dict_set h (PStr (strip v)) d) d (zip hs vs)
     = d @ zip hs (map (\<lambda>v. PStr (strip v)) vs)"
  using assms
proof (induction hs arbitrary: d vs)
  case Nil
  then show ?case by simp
next
  case (Cons h hs)
  obtain v vs' where vs: "vs = v # vs'" using Cons.prems(2) by (cases vs) auto
  have new: "dict_set h (PStr (strip v)) d = d @ [(h, PStr (strip v))]"
    using Cons.prems(1) by (intro dict_set_new) auto
  have "distinct (map fst (d @ [(h, PStr (strip v))]) @ hs)"
    using Cons.prems(1) by auto
  then show ?case
    using Cons.IH [of "d @ [(h, PStr (strip v))]" vs'] Cons.prems(2) vs new by simp
qed

lemma make_entry_zip:
  assumes "distinct hs" "length vs = length hs"
  shows "make_entry hs vs = PDict (zip hs (map (\<lambda>v. PStr (strip v)) vs))"
  using entry_fold [of "[]" hs vs] assms by (simp add: make_entry_def)

lemma clean_recordD:
  assumes "clean_record hs r"
  obtains kvs where "r = PDict kvs" "map fst kvs = hs"
    "\<forall>kv \<in> set kvs. \<exists>s. snd kv = PStr s \<and> clean s"
proof -
  from assms obtain kvs where r: "r = PDict kvs"
    by (cases r) (simp_all add: clean_record_def)
  have "map fst kvs = hs" using assms r by (simp add: clean_record_def)
  moreover have "\<forall>kv \<in> set kvs. \<exists>s. snd kv = PStr s \<and> clean s"
  proof
    fix kv assume "kv \<in> set kvs"
    then have "case snd kv of PStr s \<Rightarrow> clean s | _ \<Rightarrow> False"
      using assms r by (simp add: clean_record_def list_all_iff)
    then show "\<exists>s. snd kv = PStr s \<and> clean s"
      by (cases "snd kv") simp_all
  qed
  ultimately show ?thesis using r that by blast
qed

lemma map_of_keys:
  "distinct (map fst kvs) \<Longrightarrow> map (\<lambda>k. g (map_of kvs k)) (map fst kvs) = map (\<lambda>kv. g (Some (snd kv))) kvs"
proof (induction kvs)
  case Nil
  then show ?case by simp
next
  case (Cons kv kvs)
  have "map (\<lambda>k. g (map_of (kv # kvs) k)) (map fst kvs) = map (\<lambda>k. g (map_of kvs k)) (map fst kvs)"
    using Cons.prems by (intro map_cong) (auto simp: image_iff)
  then show ?case using Cons by simp
qed

lemma row_of_clean:
  assumes "distinct hs" "clean_record hs r"
  shows "make_entry hs (row_of str r) = r"
    and "length (row_of str r) = length hs"
    and "\<forall>x \<in> set (row_of str r). length x \<le> field_limit"
proof -
  from assms(2) obtain kvs where r: "r = PDict kvs" and keys: "map fst kvs = hs"
    and vals: "\<forall>kv \<in> set kvs. \<exists>s. snd kv = PStr s \<and> clean s"
    by (rule clean_recordD)
  have len: "length (row_of str r) = length hs"
    using keys by (simp add: row_of_def r) (metis length_map)
  have restored: "PStr (strip (field_text str (Some (snd kv)))) = snd kv" if "kv \<in> set kvs" for kv
    using vals that by (auto simp: field_text_def clean_def)
  have "zip hs (map (\<lambda>v. PStr (strip v)) (row_of str r)) = zip (map fst kvs) (map snd kvs)"
    using restored by (simp add: row_of_def r keys [symmetric] cong: map_cong)
  also have "\<dots> = kvs" by (simp add: zip_map_fst_snd)
  finally show "make_entry hs (row_of str r) = r"
    using make_entry_zip [OF assms(1) len] r by simp
  show "length (row_of str r) = length hs" by (rule len)
  show "\<forall>x \<in> set (row_of str r). length x \<le> field_limit"
    using vals by (auto simp: row_of_def r field_text_def clean_def)
qed

lemma writerows_clean:
  assumes "distinct hs" "\<forall>r \<in> set recs. clean_record hs r"
  shows "writerows str hs recs = concat (map (writerow crlf) (map (row_of str) recs))"
  using assms(2)
proof (induction recs)
  case Nil
  then show ?case by simp
next
  case (Cons r recs)
  from Cons.prems obtain kvs where r: "r = PDict kvs" and keys: "map fst kvs = hs"
    by (auto elim: clean_recordD)
  have "map (\<lambda>key. field_text str (map_of kvs key)) hs = row_of str r"
    using map_of_keys [of kvs "field_text str"] assms(1) keys by (simp add: row_of_def r)
  then show ?case using Cons r keys by simp
qed
lemma append_record_nonempty:
  "\<forall>(k, rs) \<in> set org. rs \<noteq> [] \<Longrightarrow> \<forall>(k', rs) \<in> set (append_record k r org). rs \<noteq> []"
  by (induction k r org rule: append_record.induct) auto

lemma organize_nonempty:
  "\<forall>(k, rs) \<in> set org. rs \<noteq> [] \<Longrightarrow> \<forall>(k, rs) \<in> set (fst (organize data (org, n))). rs \<noteq> []"
proof (induction data arbitrary: org n)
  case Nil
  then show ?case by simp
next
  case (Cons r data)
  show ?case
  proof (cases "record_key r")
    case None
    then show ?thesis using Cons.IH [OF Cons.prems] by simp
  next
    case (Some k)
    then show ?thesis using Cons.IH [OF append_record_nonempty [OF Cons.prems]] by simp
  qed
qed

lemma day_bucket_member:
  assumes "(k, rs) \<in> set (day_buckets data)"
  shows "rs \<noteq> []" and "\<forall>r \<in> set rs. r \<in> set data \<and> record_key r = Some k"
proof -
  show "rs \<noteq> []"
    using organize_nonempty [of "[]" data 0] assms by (auto simp: day_buckets_def)
  have key: "keyed (day_buckets data)"
    unfolding day_buckets_def by (rule organize_keyed) (simp add: keyed_def)
  have all: "mset (concat (map snd (day_buckets data))) = mset (filter (\<lambda>r. record_key r \<noteq> None) data)"
    using organize_mset [of data "[]" 0] by (simp add: day_buckets_def)
  show "\<forall>r \<in> set rs. r \<in> set data \<and> record_key r = Some k"
  proof
    fix r assume r: "r \<in> set rs"
    then have "r \<in> set (concat (map snd (day_buckets data)))" using assms by force
    then have "r \<in># mset (concat (map snd (day_buckets data)))" by simp
    then have "r \<in> set (filter (\<lambda>r. record_key r \<noteq> None) data)"
      unfolding all by simp
    moreover have "record_key r = Some k" using key r assms by (auto simp: keyed_def)
    ultimately show "r \<in> set data \<and> record_key r = Some k" by simp
  qed
qed


lemma not_digit_space: "is_digit c \<Longrightarrow> c \<noteq> CHR '' ''"
  by (auto simp: is_digit_def)



lemma try_once_posts:
  assumes "try_once env url w = (a, w')"
  shows "posts w' \<le> posts w + 1" and "gets w' \<le> gets w + 2"
proof -
  obtain reply w1 where g1: "session_get env url w = (reply, w1)" by (cases "session_get env url w")
  obtain token w2 where au: "get_auth_token env w1 = (token, w2)" by (cases "get_auth_token env w1")
  obtain reply2 w3 where g2: "session_get env url w2 = (reply2, w3)" by (cases "session_get env url w2")
  have p1: "posts w1 = posts w" "gets w1 = gets w + 1"
    using g1 by (auto simp: session_get_def)
  have p2: "posts w2 = posts w1 + 1" "gets w2 = gets w1"
    using get_auth_token_world [OF au] by simp_all
  have p3: "posts w3 = posts w2" "gets w3 = gets w2 + 1"
    using g2 by (auto simp: session_get_def)
  show "posts w' \<le> posts w + 1"
    using assms g1 au g2 p1 p2 p3 by (auto simp: try_once_def split: reply.splits if_splits)
  show "gets w' \<le> gets w + 2"
    using assms g1 au g2 p1 p2 p3 by (auto simp: try_once_def split: reply.splits if_splits)
qed

lemma fetch_loop_posts:
  "posts (snd (fetch_loop env url retry_count w)) \<le> posts w + (max_retries - retry_count)
   \<and> gets (snd (fetch_loop env url retry_count w)) \<le> gets w + 2 * (max_retries - retry_count)"
proof (induction env url retry_count w rule: fetch_loop.induct)
  case (1 env url retry_count w)
  show ?case
  proof (cases "retry_count < max_retries")
    case False
    then show ?thesis by (subst (1 2) fetch_loop.simps) simp
  next
    case True
    obtain a w1 where t: "try_once env url w = (a, w1)" by (cases "try_once env url w")
    note b = try_once_posts [OF t]
    show ?thesis
    proof (cases a)
      case (Returned d)
      then have eq: "fetch_loop env url retry_count w = (d, w1)"
        using t True by (intro fetch_loop_returned) simp_all
      have "1 \<le> max_retries - retry_count" using True by arith
      then show ?thesis unfolding eq using b by simp
    next
      case Failed
      show ?thesis
      proof (cases "retry_count + 1 < max_retries")
        case False
        have eq: "fetch_loop env url retry_count w = (PNone, w1)"
          using t True Failed False fetch_loop_failed [of env url w w1 retry_count] by simp
        have "1 \<le> max_retries - retry_count" using True by arith
        then show ?thesis unfolding eq using b by simp
      next
        case again: True
        let ?w = "emit (Sleep (2 ^ (retry_count + 1))) w1"
        have ih: "posts (snd (fetch_loop env url (retry_count + 1) ?w))
              \<le> posts ?w + (max_retries - (retry_count + 1))
            \<and> gets (snd (fetch_loop env url (retry_count + 1) ?w))
              \<le> gets ?w + 2 * (max_retries - (retry_count + 1))"
          using "1.IH" [OF True t [symmetric] _ again] Failed by simp
        have eq: "fetch_loop env url retry_count w = fetch_loop env url (retry_count + 1) ?w"
          using t True Failed again by (subst fetch_loop.simps) simp
        have p: "posts (snd (fetch_loop env url (retry_count + 1) ?w))
            \<le> posts w1 + (max_retries - (retry_count + 1))"
          and g: "gets (snd (fetch_loop env url (retry_count + 1) ?w))
            \<le> gets w1 + 2 * (max_retries - (retry_count + 1))"
          using ih by simp_all
        have "posts (snd (fetch_loop env url (retry_count + 1) ?w))
            \<le> posts w + (max_retries - retry_count)"
          using p b(1) again by arith
        moreover have "gets (snd (fetch_loop env url (retry_count + 1) ?w))
            \<le> gets w + 2 * (max_retries - retry_count)"
          using g b(2) again by arith
        ultimately show ?thesis unfolding eq by (intro conjI)
      qed
    qed
  qed
qed
lemma is_write_io: "is_write e \<Longrightarrow> is_io e"
  by (cases e) simp_all

lemma filter_io_all: "\<forall>e \<in> set evs. is_write e \<Longrightarrow> filter is_io evs = evs"
  using is_write_io by (simp add: filter_id_conv)

lemma save_dataset_json:
  assumes "\<forall>kvs. data = PDict kvs \<longrightarrow> \<not> has_key ''csv_text'' kvs"
  shows "trace (save_dataset env dataset data w)
     = trace w @ [Write (data_file (dataset @ ''_'' @ today env @ ''.json'')) (Json data)]"
  using assms by (cases data) (simp_all add: save_dataset_def)

lemma save_dataset_csv:
  assumes "data = PDict kvs" "map_of kvs ''csv_text'' = Some (PStr t)"
  shows "trace (save_dataset env dataset data w)
     = trace w @ [Write (data_file (dataset @ ''_'' @ today env @ ''.csv'')) (Text t)]"
proof -
  have "has_key ''csv_text'' kvs"
    using assms(2) by (auto simp: has_key_def dest: map_of_SomeD intro: rev_image_eqI)
  then show ?thesis using assms by (simp add: save_dataset_def text_of_def)
qed

lemma save_dataset_world0:
  "trace (save_dataset env dataset data w) = trace w @ trace (save_dataset env dataset data world0)"
  by (auto simp: save_dataset_def world0_def split: pyval.splits)

lemma save_dataset_writes:
  "\<forall>e \<in> set (trace (save_dataset env dataset data world0)). is_write e"
  by (auto simp: save_dataset_def world0_def split: pyval.splits)

lemma after_fetch_io:
  "filter is_io (trace (snd (after_fetch env dataset data acc w)))
     = filter is_io (trace w)
       @ (if truthy data
          then trace (save_dataset env dataset data world0)
               @ trace (save_data_by_day env (process_traffic_data data) dataset world0)
          else [Print (''Failed to fetch data for dataset: '' @ dataset)])"
proof (cases "truthy data")
  case True
  obtain success n where acc: "acc = (success, n)" by (cases acc)
  have "trace (snd (after_fetch env dataset data acc w))
      = trace w @ trace (save_dataset env dataset data world0)
        @ trace (save_data_by_day env (process_traffic_data data) dataset world0) @ [Sleep 2]"
    unfolding acc after_fetch_truthy(2) [OF True]
    using save_dataset_world0 [of env dataset data w] by simp
  then show ?thesis
    using True filter_io_all [OF save_dataset_writes] filter_io_all [OF save_data_by_day_writes]
    by simp
next
  case False
  then show ?thesis by (simp add: after_fetch_falsy)
qed

lemma loop_io:
  "filter is_io (trace (snd (fetch_and_save_loop env datasets acc w)))
     = filter is_io (trace w)
       @ concat (map (\<lambda>(dataset, data).
           fetching dataset
           # (if truthy data
              then trace (save_dataset env dataset data world0)
                   @ trace (save_data_by_day env (process_traffic_data data) dataset world0)
              else [Print (''Failed to fetch data for dataset: '' @ dataset)]))
         (zip datasets (payloads env datasets acc w)))"
proof (induction datasets arbitrary: acc w)
  case Nil
  then show ?case by simp
next
  case (Cons dataset datasets)
  obtain data w1 where f: "fetch_dataset env dataset (emit (fetching dataset) w) = (data, w1)"
    by (cases "fetch_dataset env dataset (emit (fetching dataset) w)")
  obtain acc' w' where a: "after_fetch env dataset data acc w1 = (acc', w')"
    by (cases "after_fetch env dataset data acc w1")
  have "filter is_io (trace w1) = filter is_io (trace (emit (fetching dataset) w))"
    using appends_filter [OF fetch_dataset_appends [OF f], of is_io] by (simp add: quiet_def)
  then have s1: "filter is_io (trace w1) = filter is_io (trace w) @ [fetching dataset]"
    by (simp add: fetching_def)
  have s2: "filter is_io (trace w')
      = filter is_io (trace w1)
        @ (if truthy data
           then trace (save_dataset env dataset data world0)
                @ trace (save_data_by_day env (process_traffic_data data) dataset world0)
           else [Print (''Failed to fetch data for dataset: '' @ dataset)])"
    using after_fetch_io [of env dataset data acc w1] a by simp
  show ?case
    using f a Cons.IH [of acc' w'] s1 s2 by simp
qed

lemma has_key_buckets:
  "has_key k (map (\<lambda>(k, rs). (k, PList rs)) bs) \<longleftrightarrow> k \<in> set (map fst bs)"
  by (induction bs) (auto simp: has_key_def)

lemma save_days_json:
  assumes "OUTPUT_FORMAT env = OUTPUT_FORMAT_JSON"
  shows "trace (save_days env dataset items world0)
     = map (\<lambda>(date, data).
         Write (data_file (dataset @ ''_'' @ replace_char CHR ''/'' CHR ''-'' date @ ''.json'')) (Json data))
       items"
proof (induction items)
  case Nil
  then show ?case by (simp add: world0_def)
next
  case (Cons item items)
  obtain date data where item: "item = (date, data)" by (cases item)
  show ?case
    unfolding item using assms Cons.IH
      save_days_trace [of env dataset items
        "emit (Write (data_file (dataset @ ''_'' @ replace_char CHR ''/'' CHR ''-'' date @ ''.json''))
           (Json data)) world0"]
    by (simp add: Let_def world0_def)
qed

lemma save_days_csv:
  assumes "OUTPUT_FORMAT env = OUTPUT_FORMAT_CSV"
    and "\<forall>(date, data) \<in> set items. day_csv (py_str env) data \<noteq> None"
  shows "list_all2 (\<lambda>(date, data) e. \<exists>csv. day_csv (py_str env) data = Some csv
           \<and> e = Write (data_file (dataset @ ''_'' @ replace_char CHR ''/'' CHR ''-'' date @ ''.csv''))
                   (Text csv))
       items (trace (save_days env dataset items world0))"
  using assms(2)
proof (induction items)
  case Nil
  then show ?case by (simp add: world0_def)
next
  case (Cons item items)
  obtain date data where item: "item = (date, data)" by (cases item)
  obtain csv where csv: "day_csv (py_str env) data = Some csv"
    using Cons.prems item by auto
  have ih: "list_all2 (\<lambda>(date, data) e. \<exists>csv. day_csv (py_str env) data = Some csv
           \<and> e = Write (data_file (dataset @ ''_'' @ replace_char CHR ''/'' CHR ''-'' date @ ''.csv''))
                   (Text csv))
       items (trace (save_days env dataset items world0))"
    using Cons.IH Cons.prems by simp
  show ?case
    unfolding item using assms(1) csv ih
      save_days_trace [of env dataset items
        "emit (Write (data_file (dataset @ ''_'' @ replace_char CHR ''/'' CHR ''-'' date @ ''.csv''))
           (Text csv)) world0"]
    by (simp add: Let_def world0_def)
qed
lemma day_bucket_head:
  assumes "(k, rs) \<in> set (day_buckets records)"
  shows "\<exists>first rest. rs = PDict first # rest"
proof -
  obtain r rest where rs: "rs = r # rest"
    using day_bucket_member(1) [OF assms] by (cases rs) auto
  have "record_key r = Some k" using day_bucket_member(2) [OF assms] rs by simp
  then obtain first where "r = PDict first" using record_key_SomeD by blast
  then show ?thesis using rs by blast
qed

lemma by_day_list_json:
  assumes "OUTPUT_FORMAT env = OUTPUT_FORMAT_JSON"
    and "\<forall>k \<in> set (map fst (day_buckets records)). k \<notin> {''csv_text'', ''raw_text'', ''unexpected_format''}"
  shows "trace (save_data_by_day env (process_traffic_data (PList records)) dataset world0)
     = map (\<lambda>(k, rs).
         Write (data_file (dataset @ ''_'' @ replace_char CHR ''/'' CHR ''-'' k @ ''.json'')) (Json (PList rs)))
       (day_buckets records)"
proof -
  let ?items = "map (\<lambda>(k, rs). (k, PList rs)) (day_buckets records)"
  have nk: "\<not> has_key ''csv_text'' ?items" "\<not> has_key ''raw_text'' ?items"
    "\<not> has_key ''unexpected_format'' ?items"
    using assms(2) unfolding has_key_buckets by auto
  have "trace (save_data_by_day env ?items dataset world0) = trace (save_days env dataset ?items world0)"
    using nk by (simp add: save_data_by_day_def)
  also have "\<dots> = map (\<lambda>(date, data).
         Write (data_file (dataset @ ''_'' @ replace_char CHR ''/'' CHR ''-'' date @ ''.json'')) (Json data))
       ?items"
    by (rule save_days_json [OF assms(1)])
  also have "\<dots> = map (\<lambda>(k, rs).
         Write (data_file (dataset @ ''_'' @ replace_char CHR ''/'' CHR ''-'' k @ ''.json'')) (Json (PList rs)))
       (day_buckets records)"
    by (simp add: case_prod_beta comp_def)
  finally show ?thesis by (simp add: process_traffic_data_def)
qed

lemma by_day_list_csv:
  assumes "OUTPUT_FORMAT env = OUTPUT_FORMAT_CSV"
    and "\<forall>k \<in> set (map fst (day_buckets records)). k \<notin> {''csv_text'', ''raw_text'', ''unexpected_format''}"
  shows "list_all2 (\<lambda>(k, rs) e. \<exists>csv. day_csv (py_str env) (PList rs) = Some csv
           \<and> e = Write (data_file (dataset @ ''_'' @ replace_char CHR ''/'' CHR ''-'' k @ ''.csv''))
                   (Text csv))
       (day_buckets records)
       (trace (save_data_by_day env (process_traffic_data (PList records)) dataset world0))"
proof -
  let ?items = "map (\<lambda>(k, rs). (k, PList rs)) (day_buckets records)"
  have nk: "\<not> has_key ''csv_text'' ?items" "\<not> has_key ''raw_text'' ?items"
    "\<not> has_key ''unexpected_format'' ?items"
    using assms(2) unfolding has_key_buckets by auto
  have eq: "trace (save_data_by_day env ?items dataset world0) = trace (save_days env dataset ?items world0)"
    using nk by (simp add: save_data_by_day_def)
  have some: "\<forall>(date, data) \<in> set ?items. day_csv (py_str env) data \<noteq> None"
  proof (clarsimp)
    fix k rs assume "(k, rs) \<in> set (day_buckets records)"
    then obtain first rest where "rs = PDict first # rest" using day_bucket_head by blast
    then show "\<exists>y. day_csv (py_str env) (PList rs) = Some y" by (simp add: day_csv_def Let_def)
  qed
  have "list_all2 (\<lambda>(date, data) e. \<exists>csv. day_csv (py_str env) data = Some csv
           \<and> e = Write (data_file (dataset @ ''_'' @ replace_char CHR ''/'' CHR ''-'' date @ ''.csv''))
                   (Text csv))
       ?items (trace (save_days env dataset ?items world0))"
    by (rule save_days_csv [OF assms(1) some])
  moreover have "process_traffic_data (PList records) = ?items"
    by (simp add: process_traffic_data_def)
  ultimately show ?thesis
    using eq by (simp add: list_all2_map1 split_def)
qed

lemma by_day_csv_text:
  assumes "has_key ''csv_text'' kvs"
  shows "trace (save_data_by_day env (process_traffic_data (PDict kvs)) dataset world0) = []"
  using assms by (simp add: save_data_by_day_def process_traffic_data_def world0_def)

lemma by_day_raw_text:
  assumes "\<not> has_key ''csv_text'' kvs" "map_of kvs ''raw_text'' = Some raw"
  shows "trace (save_data_by_day env (process_traffic_data (PDict kvs)) dataset world0)
     = [if OUTPUT_FORMAT env = OUTPUT_FORMAT_CSV
        then Write (data_file (dataset @ ''_raw_'' @ today env @ ''.csv'')) (text_of (Some raw))
        else Write (data_file (dataset @ ''_raw_'' @ today env @ ''.json'')) (Json raw)]"
proof -
  have "has_key ''raw_text'' kvs"
    using assms(2) by (auto simp: has_key_def dest: map_of_SomeD intro: rev_image_eqI)
  then show ?thesis
    using assms by (simp add: save_data_by_day_def process_traffic_data_def world0_def)
qed

lemma by_day_unexpected:
  assumes "\<forall>records. data \<noteq> PList records"
    and "\<forall>kvs. data = PDict kvs \<longrightarrow> \<not> has_key ''raw_text'' kvs \<and> \<not> has_key ''csv_text'' kvs"
  shows "trace (save_data_by_day env (process_traffic_data data) dataset world0)
     = [Write (data_file (dataset @ ''_unexpected_'' @ today env @ ''.json'')) (Json data)]"
  using assms
  by (cases data) (simp_all add: save_data_by_day_def process_traffic_data_def world0_def has_key_def)

section \<open>The claims about day partitioning\<close>

text \<open>
  C1. For a record whose \<open>datum\<close> contains a space, the date text \<open>d\<close> is the part
  before the first space. Without a slash, the day-key is \<open>d\<close>; when \<open>d\<close> is three
  slash-separated components, the day-key is the three components joined by dashes in
  the same order; in every other case the day-key is \<open>d\<close>. The two values of the spec:
  \<open>2024-05-01 14:30:00\<close> has the day-key \<open>2024-05-01\<close> and \<open>05/01/2024\<close> has the
  day-key \<open>05-01-2024\<close>.
\<close>

theorem day_key_derivation:
  assumes "map_of kvs ''datum'' = Some (PStr date)"
    and "date = d @ CHR '' '' # rest"
    and "CHR '' '' \<notin> set d"
  shows "(CHR ''/'' \<notin> set d \<longrightarrow> record_key (PDict kvs) = Some d)
    \<and> (\<forall>p0 p1 p2. d = p0 @ ''/'' @ p1 @ ''/'' @ p2 \<and> CHR ''/'' \<notin> set p0 \<union> set p1 \<union> set p2
          \<longrightarrow> record_key (PDict kvs) = Some (p0 @ ''-'' @ p1 @ ''-'' @ p2))
    \<and> ((\<nexists>p0 p1 p2. d = p0 @ ''/'' @ p1 @ ''/'' @ p2 \<and> CHR ''/'' \<notin> set p0 \<union> set p1 \<union> set p2)
          \<longrightarrow> record_key (PDict kvs) = Some d)
    \<and> record_key (PDict [(''datum'', PStr ''2024-05-01 14:30:00'')]) = Some ''2024-05-01''
    \<and> record_key (PDict [(''datum'', PStr ''05/01/2024'')]) = Some ''05-01-2024''"
proof -
  have d: "takeWhile (\<lambda>x. x \<noteq> CHR '' '') date = d"
    using assms(2,3) by (simp add: takeWhile_prefix_sep)
  have key: "record_key (PDict kvs) = Some (date_key_of date)"
    using assms(1) by (rule record_key_datum)
  have plain: "CHR ''/'' \<notin> set d \<Longrightarrow> date_key_of date = d"
    by (simp add: date_key_of_alt d)
  have three: "date_key_of date = p0 @ ''-'' @ p1 @ ''-'' @ p2"
    if "d = p0 @ ''/'' @ p1 @ ''/'' @ p2" "CHR ''/'' \<notin> set p0 \<union> set p1 \<union> set p2" for p0 p1 p2
  proof -
    have "split_on CHR ''/'' d = [p0, p1, p2]"
      using that split_on_three [of "CHR ''/''" p0 p1 p2] by simp
    moreover have "CHR ''/'' \<in> set d" using that(1) by simp
    ultimately show ?thesis by (simp add: date_key_of_alt d)
  qed
  have other: "date_key_of date = d"
    if "\<nexists>p0 p1 p2. d = p0 @ ''/'' @ p1 @ ''/'' @ p2 \<and> CHR ''/'' \<notin> set p0 \<union> set p1 \<union> set p2"
  proof (cases "\<exists>p0 p1 p2. split_on CHR ''/'' d = [p0, p1, p2]")
    case True
    then obtain p0 p1 p2 where "split_on CHR ''/'' d = [p0, p1, p2]" by blast
    then have "d = p0 @ ''/'' @ p1 @ ''/'' @ p2 \<and> CHR ''/'' \<notin> set p0 \<union> set p1 \<union> set p2"
      using split_on_threeD [of "CHR ''/''" d p0 p1 p2] by simp
    then show ?thesis using that by blast
  next
    case False
    then show ?thesis
      by (auto simp: date_key_of_alt d split: list.splits)
  qed
  have ex1: "record_key (PDict [(''datum'', PStr ''2024-05-01 14:30:00'')]) = Some ''2024-05-01''"
    by (simp add: record_key_def date_key_of_def)
  have ex2: "record_key (PDict [(''datum'', PStr ''05/01/2024'')]) = Some ''05-01-2024''"
    by (simp add: record_key_def date_key_of_def)
  show ?thesis using key plain three other ex1 ex2 by simp
qed

theorem day_key_derivation_witness:
  "record_key (PDict [(''ID'', PStr ''7''), (''datum'', PStr ''05/01/2024 14:30:00'')]) = Some ''05-01-2024''
   \<and> record_key (PDict [(''datum'', PStr ''2024-05-01 14:30:00'')]) = Some ''2024-05-01''"
proof -
  have a1: "map_of [(''ID'', PStr ''7''), (''datum'', PStr ''05/01/2024 14:30:00'')] ''datum''
      = Some (PStr ''05/01/2024 14:30:00'')"
    by simp
  have a2: "''05/01/2024 14:30:00'' = ''05/01/2024'' @ CHR '' '' # ''14:30:00''" by simp
  have a3: "CHR '' '' \<notin> set ''05/01/2024''" by simp
  have a4: "''05/01/2024'' = ''05'' @ ''/'' @ ''01'' @ ''/'' @ ''2024''
      \<and> CHR ''/'' \<notin> set ''05'' \<union> set ''01'' \<union> set ''2024''"
    by simp
  have "record_key (PDict [(''ID'', PStr ''7''), (''datum'', PStr ''05/01/2024 14:30:00'')])
      = Some (''05'' @ ''-'' @ ''01'' @ ''-'' @ ''2024'')"
    by (rule day_key_derivation [OF a1 a2 a3, THEN conjunct2, THEN conjunct1, rule_format, OF a4])
  then have slash: "record_key (PDict [(''ID'', PStr ''7''), (''datum'', PStr ''05/01/2024 14:30:00'')])
      = Some ''05-01-2024''"
    by simp
  have b1: "map_of [(''datum'', PStr ''2024-05-01 14:30:00'')] ''datum''
      = Some (PStr ''2024-05-01 14:30:00'')"
    by simp
  have b2: "''2024-05-01 14:30:00'' = ''2024-05-01'' @ CHR '' '' # ''14:30:00''" by simp
  have b3: "CHR '' '' \<notin> set ''2024-05-01''" by simp
  have b4: "CHR ''/'' \<notin> set ''2024-05-01''" by simp
  have plain: "record_key (PDict [(''datum'', PStr ''2024-05-01 14:30:00'')]) = Some ''2024-05-01''"
    by (rule day_key_derivation [OF b1 b2 b3, THEN conjunct1, rule_format, OF b4])
  show ?thesis using slash plain by (intro conjI)
qed

text \<open>
  C2. In the partitioned result of a list of records, every record of a bucket is a
  mapping whose \<open>datum\<close> string has the bucket's key as its day-key; the bucket sizes
  sum to the number of records minus the number of skipped records (the counter the
  loop keeps for records with a missing or unusable \<open>datum\<close>); the buckets together hold
  exactly the records that were not skipped, each as often as the input has it; and no
  key has two buckets.
\<close>

theorem partition_buckets:
  "process_traffic_data (PList data) = map (\<lambda>(k, rs). (k, PList rs)) (day_buckets data)
   \<and> (\<forall>(k, rs) \<in> set (day_buckets data). \<forall>r \<in> set rs.
         \<exists>kvs date. r = PDict kvs \<and> map_of kvs ''datum'' = Some (PStr date) \<and> date_key_of date = k)
   \<and> sum_list (map (\<lambda>(k, rs). length rs) (day_buckets data)) = length data - skipped_count data
   \<and> skipped_count data = length (filter (\<lambda>r. record_key r = None) data)
   \<and> mset (concat (map snd (day_buckets data))) = mset (filter (\<lambda>r. record_key r \<noteq> None) data)
   \<and> distinct (map fst (day_buckets data))"
proof -
  have shape: "process_traffic_data (PList data)
      = map (\<lambda>(k, rs). (k, PList rs)) (day_buckets data)"
    by (simp add: process_traffic_data_def)
  have "keyed (day_buckets data)"
    unfolding day_buckets_def by (rule organize_keyed) (simp add: keyed_def)
  then have members: "\<forall>(k, rs) \<in> set (day_buckets data). \<forall>r \<in> set rs.
      \<exists>kvs date. r = PDict kvs \<and> map_of kvs ''datum'' = Some (PStr date) \<and> date_key_of date = k"
    unfolding keyed_def using record_key_SomeD by fast
  have skipped: "skipped_count data = length (filter (\<lambda>r. record_key r = None) data)"
    by (simp add: skipped_count_def organize_skipped)
  have "sum_list (map (\<lambda>(k, rs). length rs) (day_buckets data)) + skipped_count data = length data"
    using organize_size [of data "[]" 0] by (simp add: day_buckets_def skipped)
  then have sizes: "sum_list (map (\<lambda>(k, rs). length rs) (day_buckets data))
      = length data - skipped_count data"
    by simp
  have all: "mset (concat (map snd (day_buckets data)))
      = mset (filter (\<lambda>r. record_key r \<noteq> None) data)"
    using organize_mset [of data "[]" 0] by (simp add: day_buckets_def)
  have keys: "distinct (map fst (day_buckets data))"
    unfolding day_buckets_def by (rule organize_distinct) simp
  show ?thesis using shape members sizes skipped all keys by blast
qed

theorem partition_buckets_witness:
  "day_buckets
     [PDict [(''datum'', PStr ''05/01/2024 10:00'')], PInt 3,
      PDict [(''datum'', PStr ''2024-05-02'')], PDict [(''pkw'', PStr ''4'')],
      PDict [(''datum'', PStr ''05/01/2024 11:00'')]]
   = [(''05-01-2024'', [PDict [(''datum'', PStr ''05/01/2024 10:00'')],
                       PDict [(''datum'', PStr ''05/01/2024 11:00'')]]),
      (''2024-05-02'', [PDict [(''datum'', PStr ''2024-05-02'')]])]
   \<and> skipped_count
     [PDict [(''datum'', PStr ''05/01/2024 10:00'')], PInt 3,
      PDict [(''datum'', PStr ''2024-05-02'')], PDict [(''pkw'', PStr ''4'')],
      PDict [(''datum'', PStr ''05/01/2024 11:00'')]] = 2
   \<and> date_key_of ''05/01/2024 11:00'' = ''05-01-2024''"
proof -
  let ?data = "[PDict [(''datum'', PStr ''05/01/2024 10:00'')], PInt 3,
      PDict [(''datum'', PStr ''2024-05-02'')], PDict [(''pkw'', PStr ''4'')],
      PDict [(''datum'', PStr ''05/01/2024 11:00'')]]"
  have buckets: "day_buckets ?data
     = [(''05-01-2024'', [PDict [(''datum'', PStr ''05/01/2024 10:00'')],
                         PDict [(''datum'', PStr ''05/01/2024 11:00'')]]),
        (''2024-05-02'', [PDict [(''datum'', PStr ''2024-05-02'')]])]"
    by (simp add: day_buckets_def record_key_def date_key_of_def)
  note facts = partition_buckets [of ?data]
  have "\<forall>(k, rs) \<in> set (day_buckets ?data). \<forall>r \<in> set rs.
         \<exists>kvs date. r = PDict kvs \<and> map_of kvs ''datum'' = Some (PStr date) \<and> date_key_of date = k"
    by (rule facts [THEN conjunct2, THEN conjunct1])
  then have key: "date_key_of ''05/01/2024 11:00'' = ''05-01-2024''"
    unfolding buckets by simp
  have "skipped_count ?data = length (filter (\<lambda>r. record_key r = None) ?data)"
    by (rule facts [THEN conjunct2, THEN conjunct2, THEN conjunct2, THEN conjunct1])
  then have skipped: "skipped_count ?data = 2"
    by (simp add: record_key_def)
  show ?thesis using buckets key skipped by (intro conjI)
qed




text \<open>
  C10. When the date text of a record's \<open>datum\<close> (the part before the first space, or
  all of it) has a slash but not exactly two of them, so that it is not three
  slash-separated components, the day-key is that date text with its slashes, and the
  record is in the bucket of that key, not skipped.
\<close>

theorem slashed_date_kept:
  assumes "map_of kvs ''datum'' = Some (PStr date)"
    and "d = takeWhile (\<lambda>x. x \<noteq> CHR '' '') date"
    and "CHR ''/'' \<in> set d"
    and "length (filter (\<lambda>x. x = CHR ''/'') d) \<noteq> 2"
  shows "record_key (PDict kvs) = Some d
    \<and> (PDict kvs \<in> set data \<longrightarrow>
         (\<exists>rs. (d, rs) \<in> set (day_buckets data) \<and> PDict kvs \<in> set rs))"
proof -
  have "length (split_on CHR ''/'' d) \<noteq> 3"
    using assms(4) by (simp add: split_on_length)
  then have "date_key_of date = d"
    using assms(2,3) by (auto simp: date_key_of_alt Let_def split: list.splits)
  then have key: "record_key (PDict kvs) = Some d"
    using assms(1) by (simp add: record_key_datum)
  then have "PDict kvs \<in> set data \<Longrightarrow>
      \<exists>rs. (d, rs) \<in> set (day_buckets data) \<and> PDict kvs \<in> set rs"
    unfolding day_buckets_def by (rule organize_grouped [rotated])
  then show ?thesis using key by blast
qed

theorem slashed_date_kept_witness:
  "record_key (PDict [(''datum'', PStr ''05/01'')]) = Some ''05/01''
   \<and> (\<exists>rs. (''05/01'', rs) \<in> set (day_buckets [PDict [(''datum'', PStr ''05/01'')]])
          \<and> PDict [(''datum'', PStr ''05/01'')] \<in> set rs)"
  using slashed_date_kept [of "[(''datum'', PStr ''05/01'')]" "''05/01''" "''05/01''"
      "[PDict [(''datum'', PStr ''05/01'')]]"]
  by simp

section \<open>The claims about fetching\<close>

text \<open>
  C4. When each of the three requests of a fetch is answered with a status that is
  neither 200 nor 401, \<open>fetch_dataset\<close> makes exactly three requests, sleeps 2 seconds
  after the first and 4 seconds after the second, and returns \<open>None\<close>.
\<close>

theorem backoff_exhausted:
  assumes "\<forall>n<3. \<exists>r. http_get env (gets w + n) = Responds r \<and> status_code r \<noteq> 200 \<and> status_code r \<noteq> 401"
  shows "fetch_dataset env dataset_name w =
     (PNone, w\<lparr>gets := gets w + 3,
               trace := trace w @ [HttpGet (dataset_url dataset_name), Sleep 2,
                                   HttpGet (dataset_url dataset_name), Sleep 4,
                                   HttpGet (dataset_url dataset_name)]\<rparr>)"
proof -
  let ?u = "dataset_url dataset_name"
  define w1 where "w1 = emit (HttpGet ?u) (w\<lparr>gets := gets w + 1\<rparr>)"
  define w2 where "w2 = emit (HttpGet ?u) ((emit (Sleep 2) w1)\<lparr>gets := gets w + 2\<rparr>)"
  define w3 where "w3 = emit (HttpGet ?u) ((emit (Sleep 4) w2)\<lparr>gets := gets w + 3\<rparr>)"
  obtain r0 where r0: "http_get env (gets w) = Responds r0" "status_code r0 \<noteq> 200" "status_code r0 \<noteq> 401"
    using assms [rule_format, of 0] by auto
  obtain r1 where r1: "http_get env (gets w + 1) = Responds r1" "status_code r1 \<noteq> 200" "status_code r1 \<noteq> 401"
    using assms [rule_format, of 1] by auto
  obtain r2 where r2: "http_get env (gets w + 2) = Responds r2" "status_code r2 \<noteq> 200" "status_code r2 \<noteq> 401"
    using assms [rule_format, of 2] by auto
  have t0: "try_once env ?u w = (Failed, w1)"
    unfolding w1_def by (rule try_once_other_status [OF r0])
  have t1: "try_once env ?u (emit (Sleep 2) w1) = (Failed, w2)"
    using try_once_other_status [of env "emit (Sleep 2) w1" r1 ?u] r1
    by (simp add: w1_def w2_def)
  have t2: "try_once env ?u (emit (Sleep 4) w2) = (Failed, w3)"
    using try_once_other_status [of env "emit (Sleep 4) w2" r2 ?u] r2
    by (simp add: w1_def w2_def w3_def)
  have "fetch_loop env ?u 0 w = fetch_loop env ?u (Suc 0) (emit (Sleep 2) w1)"
    using fetch_loop_failed [OF t0, of 0] by (simp add: max_retries_def)
  also have "\<dots> = fetch_loop env ?u (Suc (Suc 0)) (emit (Sleep 4) w2)"
    using fetch_loop_failed [OF t1, of "Suc 0"] by (simp add: max_retries_def)
  also have "\<dots> = (PNone, w3)"
    using fetch_loop_failed [OF t2, of "Suc (Suc 0)"] by (simp add: max_retries_def)
  finally show ?thesis
    by (simp add: fetch_dataset_def w1_def w2_def w3_def emit_def)
qed

theorem backoff_exhausted_witness:
  "fetch_dataset env_unavailable ''VDNB'' world0 =
     (PNone, \<lparr>gets = 3, posts = 0, bearer = None,
              trace = [HttpGet (dataset_url ''VDNB''), Sleep 2,
                       HttpGet (dataset_url ''VDNB''), Sleep 4,
                       HttpGet (dataset_url ''VDNB'')]\<rparr>)"
proof -
  have "\<forall>n<3. \<exists>r. http_get env_unavailable (gets world0 + n) = Responds r
      \<and> status_code r \<noteq> 200 \<and> status_code r \<noteq> 401"
    by (simp add: env_unavailable_def)
  from backoff_exhausted [OF this, of "''VDNB''"] show ?thesis
    by (simp add: world0_def)
qed

text \<open>
  C3, as the spec states it, fails on a fetch whose renewed request is answered with a
  status other than 200 and 401. The service answers 401, hands out a token, answers
  503 to the request sent again, and the loop goes on: it sleeps, is answered 401 again
  and re-acquires the token a second time. This one fetch makes two re-acquisitions and
  retries after the first of them.
\<close>

theorem renewal_repeated_counterexample:
  "fetch_dataset env_rejected ''VDNB'' world0 =
     (PList [PDict [(''datum'', PStr ''2024-05-01'')]],
      \<lparr>gets = 4, posts = 2, bearer = Some (PStr ''awse_1''),
       trace = [HttpGet (dataset_url ''VDNB''), HttpPost AUTH_URL, HttpGet (dataset_url ''VDNB''),
                Sleep 2,
                HttpGet (dataset_url ''VDNB''), HttpPost AUTH_URL, HttpGet (dataset_url ''VDNB'')]\<rparr>)"
  by (simp add: fetch_dataset_def fetch_loop.simps try_once_def session_get_def get_auth_token_def
      env_rejected_def world0_def emit_def max_retries_def check_status_def read_body_def)

text \<open>
  C3, amended. In an attempt of the fetch loop whose request is answered with 401, the
  token is re-acquired exactly once. If no token comes back, the fetch returns \<open>None\<close>
  at once. If a token comes back, the request is sent once more: answered with 401
  again, the fetch returns \<open>None\<close> at once; answered with 200, the fetch returns the
  body of that response, read as the body of a first response with status 200 is;
  answered with another status, or raising, the attempt counts as a failed attempt, and
  the loop sleeps and tries again when an attempt is left, and returns \<open>None\<close>
  otherwise. A later attempt that is answered with 401 re-acquires again, so a fetch
  makes at most one re-acquisition for each of its at most three attempts.
\<close>

theorem unauthorized_attempt:
  assumes "retry_count < max_retries"
    and "http_get env (gets w) = Responds r" and "status_code r = 401"
    and "get_auth_token env (emit (HttpGet url) (w\<lparr>gets := gets w + 1\<rparr>)) = (new_token, w2)"
    and "w3 = emit (HttpGet url) (w2\<lparr>gets := gets w + 2\<rparr>)"
  shows "trace w2 = trace w @ [HttpGet url, HttpPost AUTH_URL] \<and> posts w2 = posts w + 1
    \<and> (\<not> truthy new_token \<longrightarrow> fetch_loop env url retry_count w = (PNone, w2))
    \<and> (truthy new_token \<longrightarrow>
         (\<forall>r2. http_get env (gets w + 1) = Responds r2 \<longrightarrow>
            (status_code r2 = 401 \<longrightarrow> fetch_loop env url retry_count w = (PNone, w3))
          \<and> (status_code r2 = 200 \<longrightarrow> fetch_loop env url retry_count w = (read_body env r2, w3))
          \<and> (status_code r2 \<noteq> 401 \<and> status_code r2 \<noteq> 200 \<longrightarrow>
               fetch_loop env url retry_count w
                 = (if retry_count + 1 < max_retries
                    then fetch_loop env url (retry_count + 1) (emit (Sleep (2 ^ (retry_count + 1))) w3)
                    else (PNone, w3))))
         \<and> (http_get env (gets w + 1) = Raises \<longrightarrow>
               fetch_loop env url retry_count w
                 = (if retry_count + 1 < max_retries
                    then fetch_loop env url (retry_count + 1) (emit (Sleep (2 ^ (retry_count + 1))) w3)
                    else (PNone, w3))))
    \<and> (\<forall>w' r'. http_get env (gets w') = Responds r' \<and> status_code r' = 200 \<longrightarrow>
          fetch_loop env url retry_count w'
            = (read_body env r', emit (HttpGet url) (w'\<lparr>gets := gets w' + 1\<rparr>)))
    \<and> (\<forall>w' n. posts (snd (fetch_loop env url n w')) \<le> posts w' + (max_retries - n))
    \<and> (\<forall>dataset w'. posts (snd (fetch_dataset env dataset w')) \<le> posts w' + 3)"
proof -
  note t = try_once_unauthorized [OF assms(2,3,4)]
  have tr: "trace w2 = trace w @ [HttpGet url, HttpPost AUTH_URL] \<and> posts w2 = posts w + 1"
    using get_auth_token_world [OF assms(4)] by simp
  have fail: "fetch_loop env url retry_count w = (PNone, w2)" if "\<not> truthy new_token"
    using t that by (intro fetch_loop_returned [OF _ assms(1)]) simp
  have again: "fetch_loop env url retry_count w = (PNone, w3)"
    if "truthy new_token" "http_get env (gets w + 1) = Responds r2" "status_code r2 = 401" for r2
    using t that assms(5) by (intro fetch_loop_returned [OF _ assms(1)]) simp
  have ok: "fetch_loop env url retry_count w = (read_body env r2, w3)"
    if "truthy new_token" "http_get env (gets w + 1) = Responds r2" "status_code r2 = 200" for r2
    using t that assms(5) by (intro fetch_loop_returned [OF _ assms(1)]) (simp add: check_status_def)
  have other: "fetch_loop env url retry_count w
      = (if retry_count + 1 < max_retries
         then fetch_loop env url (retry_count + 1) (emit (Sleep (2 ^ (retry_count + 1))) w3)
         else (PNone, w3))"
    if "truthy new_token" "http_get env (gets w + 1) = Responds r2"
      "status_code r2 \<noteq> 401" "status_code r2 \<noteq> 200" for r2
    using t that assms(5) by (intro fetch_loop_failed [OF _ assms(1)]) (simp add: check_status_def)
  have raised: "fetch_loop env url retry_count w
      = (if retry_count + 1 < max_retries
         then fetch_loop env url (retry_count + 1) (emit (Sleep (2 ^ (retry_count + 1))) w3)
         else (PNone, w3))"
    if "truthy new_token" "http_get env (gets w + 1) = Raises"
    using t that assms(5) by (intro fetch_loop_failed [OF _ assms(1)]) simp
  have plain: "fetch_loop env url retry_count w'
      = (read_body env r', emit (HttpGet url) (w'\<lparr>gets := gets w' + 1\<rparr>))"
    if "http_get env (gets w') = Responds r'" "status_code r' = 200" for w' r'
    using try_once_ok [OF that] by (intro fetch_loop_returned [OF _ assms(1)])
  have bound: "posts (snd (fetch_loop env url n w')) \<le> posts w' + (max_retries - n)" for w' n
    using fetch_loop_posts [of env url n w'] by simp
  have whole: "posts (snd (fetch_dataset env dataset w')) \<le> posts w' + 3" for dataset w'
    using fetch_loop_posts [of env "dataset_url dataset" 0 w']
    by (simp add: fetch_dataset_def max_retries_def)
  show ?thesis
    using tr fail again ok other raised plain bound whole by (intro conjI allI impI) blast+
qed

theorem unauthorized_attempt_witness:
  "fetch_dataset env_renewed ''VDNB'' world0 =
     (PList [PDict [(''datum'', PStr ''2024-05-01'')]],
      \<lparr>gets = 2, posts = 1, bearer = Some (PStr ''awse_1''),
       trace = [HttpGet (dataset_url ''VDNB''), HttpPost AUTH_URL, HttpGet (dataset_url ''VDNB'')]\<rparr>)"
proof -
  let ?u = "dataset_url ''VDNB''"
  let ?r = "\<lparr>status_code = 401, body_json = None, body_text = []\<rparr>"
  let ?r2 = "\<lparr>status_code = 200,
             body_json = Some (PList [PDict [(''datum'', PStr ''2024-05-01'')]]),
             body_text = []\<rparr>"
  let ?w2 = "\<lparr>gets = 1, posts = 1, bearer = Some (PStr ''awse_1''),
             trace = [HttpGet ?u, HttpPost AUTH_URL]\<rparr>"
  let ?w3 = "emit (HttpGet ?u) (?w2\<lparr>gets := gets world0 + 2\<rparr>)"
  have a1: "0 < max_retries" by (simp add: max_retries_def)
  have a2: "http_get env_renewed (gets world0) = Responds ?r"
    by (simp add: env_renewed_def world0_def)
  have a3: "status_code ?r = 401" by simp
  have a4: "get_auth_token env_renewed (emit (HttpGet ?u) (world0\<lparr>gets := gets world0 + 1\<rparr>))
      = (PStr ''awse_1'', ?w2)"
    by (simp add: get_auth_token_def env_renewed_def world0_def emit_def)
  have a5: "truthy (PStr ''awse_1'')" by simp
  have a6: "http_get env_renewed (gets world0 + 1) = Responds ?r2"
    by (simp add: env_renewed_def world0_def)
  have a7: "status_code ?r2 = 200" by simp
  have "fetch_loop env_renewed ?u 0 world0 = (read_body env_renewed ?r2, ?w3)"
    by (rule unauthorized_attempt [OF a1 a2 a3 a4 refl, THEN conjunct2, THEN conjunct2,
          THEN conjunct2, THEN conjunct1, rule_format, OF a5, THEN conjunct1, rule_format, OF a6,
          THEN conjunct2, THEN conjunct1, rule_format, OF a7])
  then show ?thesis
    by (simp add: fetch_dataset_def read_body_def emit_def world0_def)
qed

section \<open>The claims about the batch run\<close>

text \<open>
  C8, as the spec states it, fails on a fetch that succeeds with an empty payload: the
  service answers 200 with the JSON list \<open>[]\<close>, \<open>fetch_dataset\<close> returns that list
  and not \<open>None\<close>, and yet no file is written and the result of the run is false.
\<close>

theorem batch_empty_payload_counterexample:
  "fst (fetch_dataset env_empty_list ''VDNB'' (emit (fetching ''VDNB'') world0)) = PList []
   \<and> PList [] \<noteq> PNone
   \<and> filter is_write (trace (snd (fetch_and_save_all_datasets env_empty_list [''VDNB''] world0))) = []
   \<and> \<not> fst (fst (fetch_and_save_all_datasets env_empty_list [''VDNB''] world0))"
  by (simp add: fetch_and_save_all_datasets_def fetch_dataset_def fetch_loop.simps try_once_def
      session_get_def env_empty_list_def world0_def emit_def max_retries_def check_status_def
      read_body_def after_fetch_def fetching_def)

text \<open>
  C8, amended. The batch run announces and fetches every configured dataset, in the
  configured order, whatever the earlier fetches returned. What the run prints and
  writes is, for each dataset in turn: the line that announces it; then, when the
  fetched value is truthy (a non-empty payload), the raw result written by
  \<open>save_dataset\<close> and after it the output written by \<open>save_data_by_day\<close> for the
  partitioned value, and when it is not, the failure line. The raw result goes to
  \<open>data/<dataset>_<today>.json\<close> as the fetched value (to \<open>.csv\<close> as its text for the
  \<open>csv_text\<close> wrapper). For a list of records the per-day output is one file for each
  bucket, in the order of the buckets, named after the day-key with dashes for slashes
  and holding the records of the bucket (as JSON, or as the CSV text of the bucket), as
  long as no day-key is one of the three wrapper keys; the \<open>raw_text\<close> wrapper goes to
  the \<open>_raw_\<close> file, the \<open>csv_text\<close> wrapper has no further output, and any other
  value goes to the \<open>_unexpected_\<close> file. The result is true if and only if a fetch
  returned a truthy value, and the count of successful datasets is the number of such
  fetches.
\<close>

theorem batch_run:
  "filter is_io (trace (snd (fetch_and_save_all_datasets env DATASETS w)))
     = filter is_io (trace w)
       @ concat (map (\<lambda>(dataset, data).
           fetching dataset
           # (if truthy data
              then trace (save_dataset env dataset data world0)
                   @ trace (save_data_by_day env (process_traffic_data data) dataset world0)
              else [Print (''Failed to fetch data for dataset: '' @ dataset)]))
         (zip DATASETS (payloads env DATASETS (False, 0) w)))
   \<and> filter is_fetching (trace (snd (fetch_and_save_all_datasets env DATASETS w)))
       = filter is_fetching (trace w) @ map fetching DATASETS
   \<and> length (payloads env DATASETS (False, 0) w) = length DATASETS
   \<and> (fst (fst (fetch_and_save_all_datasets env DATASETS w))
        \<longleftrightarrow> (\<exists>data \<in> set (payloads env DATASETS (False, 0) w). truthy data))
   \<and> snd (fst (fetch_and_save_all_datasets env DATASETS w))
        = length (filter truthy (payloads env DATASETS (False, 0) w))
   \<and> (\<forall>dataset data. (\<forall>kvs. data = PDict kvs \<longrightarrow> \<not> has_key ''csv_text'' kvs) \<longrightarrow>
         trace (save_dataset env dataset data world0)
           = [Write (data_file (dataset @ ''_'' @ today env @ ''.json'')) (Json data)])
   \<and> (\<forall>dataset kvs t. map_of kvs ''csv_text'' = Some (PStr t) \<longrightarrow>
         trace (save_dataset env dataset (PDict kvs) world0)
           = [Write (data_file (dataset @ ''_'' @ today env @ ''.csv'')) (Text t)])
   \<and> (\<forall>dataset records.
         OUTPUT_FORMAT env = OUTPUT_FORMAT_JSON
         \<and> (\<forall>k \<in> set (map fst (day_buckets records)).
               k \<notin> {''csv_text'', ''raw_text'', ''unexpected_format''}) \<longrightarrow>
         trace (save_data_by_day env (process_traffic_data (PList records)) dataset world0)
           = map (\<lambda>(k, rs).
               Write (data_file (dataset @ ''_'' @ replace_char CHR ''/'' CHR ''-'' k @ ''.json''))
                 (Json (PList rs)))
             (day_buckets records))
   \<and> (\<forall>dataset records.
         OUTPUT_FORMAT env = OUTPUT_FORMAT_CSV
         \<and> (\<forall>k \<in> set (map fst (day_buckets records)).
               k \<notin> {''csv_text'', ''raw_text'', ''unexpected_format''}) \<longrightarrow>
         list_all2 (\<lambda>(k, rs) e. \<exists>csv. day_csv (py_str env) (PList rs) = Some csv
             \<and> e = Write (data_file (dataset @ ''_'' @ replace_char CHR ''/'' CHR ''-'' k @ ''.csv''))
                     (Text csv))
           (day_buckets records)
           (trace (save_data_by_day env (process_traffic_data (PList records)) dataset world0)))
   \<and> (\<forall>dataset kvs. has_key ''csv_text'' kvs \<longrightarrow>
         trace (save_data_by_day env (process_traffic_data (PDict kvs)) dataset world0) = [])
   \<and> (\<forall>dataset kvs raw. \<not> has_key ''csv_text'' kvs \<and> map_of kvs ''raw_text'' = Some raw \<longrightarrow>
         trace (save_data_by_day env (process_traffic_data (PDict kvs)) dataset world0)
           = [if OUTPUT_FORMAT env = OUTPUT_FORMAT_CSV
              then Write (data_file (dataset @ ''_raw_'' @ today env @ ''.csv'')) (text_of (Some raw))
              else Write (data_file (dataset @ ''_raw_'' @ today env @ ''.json'')) (Json raw)])
   \<and> (\<forall>dataset data.
         (\<forall>records. data \<noteq> PList records)
         \<and> (\<forall>kvs. data = PDict kvs \<longrightarrow> \<not> has_key ''raw_text'' kvs \<and> \<not> has_key ''csv_text'' kvs) \<longrightarrow>
         trace (save_data_by_day env (process_traffic_data data) dataset world0)
           = [Write (data_file (dataset @ ''_unexpected_'' @ today env @ ''.json'')) (Json data)])
   \<and> (\<forall>dataset data success n w1. truthy data \<longrightarrow>
         trace (snd (after_fetch env dataset data (success, n) w1))
           = trace w1 @ trace (save_dataset env dataset data world0)
             @ trace (save_data_by_day env (process_traffic_data data) dataset world0)
             @ [Sleep 2])
   \<and> (\<forall>dataset data acc w1. \<not> truthy data \<longrightarrow>
         after_fetch env dataset data acc w1
           = (acc, emit (Sleep 2) (emit (Print (''Failed to fetch data for dataset: '' @ dataset)) w1)))"
proof -
  have io: "filter is_io (trace (snd (fetch_and_save_all_datasets env DATASETS w)))
     = filter is_io (trace w)
       @ concat (map (\<lambda>(dataset, data).
           fetching dataset
           # (if truthy data
              then trace (save_dataset env dataset data world0)
                   @ trace (save_data_by_day env (process_traffic_data data) dataset world0)
              else [Print (''Failed to fetch data for dataset: '' @ dataset)]))
         (zip DATASETS (payloads env DATASETS (False, 0) w)))"
    unfolding fetch_and_save_all_datasets_def by (rule loop_io)
  have order: "filter is_fetching (trace (snd (fetch_and_save_all_datasets env DATASETS w)))
      = filter is_fetching (trace w) @ map fetching DATASETS"
    unfolding fetch_and_save_all_datasets_def by (rule loop_fetching)
  note p = loop_payloads [of env DATASETS "(False, 0)" w False 0]
  have len: "length (payloads env DATASETS (False, 0) w) = length DATASETS"
    using p by simp
  have res: "fst (fst (fetch_and_save_all_datasets env DATASETS w))
      \<longleftrightarrow> (\<exists>data \<in> set (payloads env DATASETS (False, 0) w). truthy data)"
    using p by (simp add: fetch_and_save_all_datasets_def)
  have cnt: "snd (fst (fetch_and_save_all_datasets env DATASETS w))
      = length (filter truthy (payloads env DATASETS (False, 0) w))"
    using p by (simp add: fetch_and_save_all_datasets_def)
  have raw_json: "trace (save_dataset env dataset data world0)
      = [Write (data_file (dataset @ ''_'' @ today env @ ''.json'')) (Json data)]"
    if "\<forall>kvs. data = PDict kvs \<longrightarrow> \<not> has_key ''csv_text'' kvs" for dataset data
    using save_dataset_json [OF that, of env dataset world0] by (simp add: world0_def)
  have raw_csv: "trace (save_dataset env dataset (PDict kvs) world0)
      = [Write (data_file (dataset @ ''_'' @ today env @ ''.csv'')) (Text t)]"
    if "map_of kvs ''csv_text'' = Some (PStr t)" for dataset kvs t
    using save_dataset_csv [OF refl that, of env dataset world0] by (simp add: world0_def)
  have seq: "trace (snd (after_fetch env dataset data (success, n) w1))
      = trace w1 @ trace (save_dataset env dataset data world0)
        @ trace (save_data_by_day env (process_traffic_data data) dataset world0)
        @ [Sleep 2]"
    if "truthy data" for dataset data success n w1
    unfolding after_fetch_truthy(2) [OF that]
    using save_dataset_world0 [of env dataset data w1] by simp
  show ?thesis
    apply (intro conjI allI impI)
    subgoal by (rule io)
    subgoal by (rule order)
    subgoal by (rule len)
    subgoal by (rule res)
    subgoal by (rule cnt)
    subgoal by (rule raw_json)
    subgoal by (rule raw_csv)
    subgoal by (rule by_day_list_json) blast+
    subgoal by (rule by_day_list_csv) blast+
    subgoal by (rule by_day_csv_text)
    subgoal by (rule by_day_raw_text) blast+
    subgoal by (rule by_day_unexpected) blast+
    subgoal by (rule seq)
    subgoal by (rule after_fetch_falsy)
    done
qed

theorem batch_run_witness:
  "payloads env_expired [''A'', ''B''] (False, 0) world0
     = [PNone, PList [PDict [(''datum'', PStr ''05/01/2024 10:00'')],
                      PDict [(''datum'', PStr ''2024-05-02'')]]]
   \<and> fst (fetch_and_save_all_datasets env_expired [''A'', ''B''] world0) = (True, 1)
   \<and> filter is_io (trace (snd (fetch_and_save_all_datasets env_expired [''A'', ''B''] world0)))
       = [fetching ''A'', Print ''Failed to fetch data for dataset: A'',
          fetching ''B'',
          Write ''data/B_2024-05-03.json''
            (Json (PList [PDict [(''datum'', PStr ''05/01/2024 10:00'')],
                          PDict [(''datum'', PStr ''2024-05-02'')]])),
          Write ''data/B_05-01-2024.json'' (Json (PList [PDict [(''datum'', PStr ''05/01/2024 10:00'')]])),
          Write ''data/B_2024-05-02.json'' (Json (PList [PDict [(''datum'', PStr ''2024-05-02'')]]))]"
proof -
  let ?records = "[PDict [(''datum'', PStr ''05/01/2024 10:00'')],
                   PDict [(''datum'', PStr ''2024-05-02'')]]"
  have pay: "payloads env_expired [''A'', ''B''] (False, 0) world0 = [PNone, PList ?records]"
    by (simp add: fetch_dataset_def fetch_loop.simps try_once_def session_get_def
        get_auth_token_def env_expired_def world0_def emit_def max_retries_def check_status_def
        read_body_def after_fetch_def Let_def)
  note run = batch_run [of env_expired "[''A'', ''B'']" world0]
  have "fst (fst (fetch_and_save_all_datasets env_expired [''A'', ''B''] world0))"
    using run [THEN conjunct2, THEN conjunct2, THEN conjunct2, THEN conjunct1] unfolding pay by simp
  moreover have "snd (fst (fetch_and_save_all_datasets env_expired [''A'', ''B''] world0)) = 1"
    using run [THEN conjunct2, THEN conjunct2, THEN conjunct2, THEN conjunct2, THEN conjunct1]
    unfolding pay by simp
  ultimately have res: "fst (fetch_and_save_all_datasets env_expired [''A'', ''B''] world0) = (True, 1)"
    by (simp add: prod_eq_iff)
  have buckets: "day_buckets ?records
      = [(''05-01-2024'', [PDict [(''datum'', PStr ''05/01/2024 10:00'')]]),
         (''2024-05-02'', [PDict [(''datum'', PStr ''2024-05-02'')]])]"
    by (simp add: day_buckets_def record_key_def date_key_of_def)
  have fmt: "OUTPUT_FORMAT env_expired = OUTPUT_FORMAT_JSON
      \<and> (\<forall>k \<in> set (map fst (day_buckets ?records)).
            k \<notin> {''csv_text'', ''raw_text'', ''unexpected_format''})"
    unfolding buckets by (simp add: env_expired_def)
  have days: "trace (save_data_by_day env_expired (process_traffic_data (PList ?records)) ''B'' world0)
      = [Write ''data/B_05-01-2024.json'' (Json (PList [PDict [(''datum'', PStr ''05/01/2024 10:00'')]])),
         Write ''data/B_2024-05-02.json'' (Json (PList [PDict [(''datum'', PStr ''2024-05-02'')]]))]"
    using run [THEN conjunct2, THEN conjunct2, THEN conjunct2, THEN conjunct2, THEN conjunct2,
        THEN conjunct2, THEN conjunct2, THEN conjunct1, THEN spec [where x = "''B''"],
        THEN spec [where x = ?records], THEN mp, OF fmt]
    unfolding buckets by (simp add: data_file_def replace_char_def)
  have nocsv: "\<forall>kvs. PList ?records = PDict kvs \<longrightarrow> \<not> has_key ''csv_text'' kvs" by simp
  have raw: "trace (save_dataset env_expired ''B'' (PList ?records) world0)
      = [Write ''data/B_2024-05-03.json'' (Json (PList ?records))]"
    using run [THEN conjunct2, THEN conjunct2, THEN conjunct2, THEN conjunct2, THEN conjunct2,
        THEN conjunct1, THEN spec [where x = "''B''"], THEN spec [where x = "PList ?records"],
        THEN mp, OF nocsv]
    by (simp add: data_file_def env_expired_def)
  have io: "filter is_io (trace (snd (fetch_and_save_all_datasets env_expired [''A'', ''B''] world0)))
      = [fetching ''A'', Print ''Failed to fetch data for dataset: A'',
         fetching ''B'',
         Write ''data/B_2024-05-03.json'' (Json (PList ?records)),
         Write ''data/B_05-01-2024.json'' (Json (PList [PDict [(''datum'', PStr ''05/01/2024 10:00'')]])),
         Write ''data/B_2024-05-02.json'' (Json (PList [PDict [(''datum'', PStr ''2024-05-02'')]]))]"
    using run [THEN conjunct1] unfolding pay by (simp add: raw days) (simp add: world0_def)
  show ?thesis using pay res io by (intro conjI)
qed

text \<open>
  C9. A fetch that returns an empty list or an empty mapping is handled by the batch
  loop exactly as a fetch that returns \<open>None\<close>: the failure line is printed, the pause
  follows, the success flag and the count stay as they were, and no file is written. A
  run over that one dataset has the result false.
\<close>

theorem empty_payload_as_failure:
  assumes "data = PList [] \<or> data = PDict []"
  shows "after_fetch env dataset data acc w1 = after_fetch env dataset PNone acc w1
    \<and> after_fetch env dataset data acc w1
        = (acc, emit (Sleep 2) (emit (Print (''Failed to fetch data for dataset: '' @ dataset)) w1))
    \<and> (fetch_dataset env dataset (emit (fetching dataset) w) = (data, w1) \<longrightarrow>
          fst (fetch_and_save_all_datasets env [dataset] w) = (False, 0)
          \<and> filter is_write (trace (snd (fetch_and_save_all_datasets env [dataset] w)))
              = filter is_write (trace w))"
proof -
  have falsy: "\<not> truthy data" using assms by auto
  have same: "after_fetch env dataset data acc w1 = after_fetch env dataset PNone acc w1"
    using falsy by (simp add: after_fetch_falsy)
  have handled: "after_fetch env dataset data acc w1
      = (acc, emit (Sleep 2) (emit (Print (''Failed to fetch data for dataset: '' @ dataset)) w1))"
    using falsy by (rule after_fetch_falsy)
  have run: "fst (fetch_and_save_all_datasets env [dataset] w) = (False, 0)
      \<and> filter is_write (trace (snd (fetch_and_save_all_datasets env [dataset] w)))
          = filter is_write (trace w)"
    if f: "fetch_dataset env dataset (emit (fetching dataset) w) = (data, w1)"
  proof -
    have "filter is_write (trace w1) = filter is_write (trace (emit (fetching dataset) w))"
      using appends_filter [OF fetch_dataset_appends [OF f], of is_write] quiet_not_write
      by blast
    then show ?thesis
      using f falsy by (simp add: fetch_and_save_all_datasets_def after_fetch_falsy fetching_def)
  qed
  show ?thesis using same handled run by blast
qed

theorem empty_payload_as_failure_witness:
  "fetch_dataset env_header_only ''VDNB'' (emit (fetching ''VDNB'') world0)
     = (PList [], \<lparr>gets = 1, posts = 0, bearer = None,
                   trace = [fetching ''VDNB'', HttpGet (dataset_url ''VDNB'')]\<rparr>)
   \<and> fst (fetch_and_save_all_datasets env_header_only [''VDNB''] world0) = (False, 0)
   \<and> filter is_write (trace (snd (fetch_and_save_all_datasets env_header_only [''VDNB''] world0))) = []"
proof -
  let ?w1 = "\<lparr>gets = 1, posts = 0, bearer = None,
              trace = [fetching ''VDNB'', HttpGet (dataset_url ''VDNB'')]\<rparr>"
  have csv: "process_csv_response OUTPUT_FORMAT_JSON ''pkw,datum,ID'' = PList []"
    by (simp add: process_csv_response_def strip_def is_space_def csv_reader_def parse_reset_def
        lines_of.simps read_rows.simps parse_process_char_def in_start_field_def
        parse_add_char_def parse_save_field_def is_newline_def field_limit_def)
  have f: "fetch_dataset env_header_only ''VDNB'' (emit (fetching ''VDNB'') world0) = (PList [], ?w1)"
    by (simp add: fetch_dataset_def fetch_loop.simps try_once_def session_get_def
        env_header_only_def world0_def emit_def max_retries_def check_status_def read_body_def csv)
  have e: "PList [] = PList [] \<or> PList [] = PDict []" by simp
  note t = empty_payload_as_failure [OF e, of env_header_only "''VDNB''" _ ?w1 world0,
      THEN conjunct2, THEN conjunct2, rule_format, OF f]
  show ?thesis using f t by (simp add: world0_def)
qed

section \<open>The claims about delimited text\<close>

text \<open>
  C5, as the spec states it, fails on a text with whitespace around it. The text of two
  spaces has no header row, and the wrapper returned for it carries the empty text;
  the text \<open>" a\rb"\<close> makes the reader raise (a carriage return inside an unquoted
  field), and the wrapper carries \<open>"a\rb"\<close> without the leading space.
\<close>

theorem raw_text_is_stripped_counterexample:
  "process_csv_response OUTPUT_FORMAT_JSON ''  '' = PDict [(''raw_text'', PStr [])]
   \<and> process_csv_response OUTPUT_FORMAT_JSON ''  '' \<noteq> PDict [(''raw_text'', PStr ''  '')]
   \<and> snd (csv_reader (strip [CHR '' '', CHR ''a'', CHR 0x0D, CHR ''b''])) = CsvError
   \<and> process_csv_response OUTPUT_FORMAT_JSON [CHR '' '', CHR ''a'', CHR 0x0D, CHR ''b'']
       = PDict [(''raw_text'', PStr [CHR ''a'', CHR 0x0D, CHR ''b''])]"
  by (simp add: process_csv_response_def strip_def is_space_def csv_reader_def parse_reset_def
      lines_of.simps read_rows.simps parse_process_char_def in_start_field_def parse_add_char_def
      parse_save_field_def is_newline_def field_limit_def)

text \<open>
  C5, amended. When the stripped text is empty, or the reader yields no row or an empty
  first row for it, or the reader raises on it, \<open>process_csv_response\<close> returns the
  \<open>raw_text\<close> wrapper around the stripped text, in either output format, and so never
  an empty record list.
\<close>

theorem degraded_text_gives_raw_wrapper:
  assumes "strip text = []
      \<or> fst (csv_reader (strip text)) = []
      \<or> (\<exists>rows. fst (csv_reader (strip text)) = [] # rows)
      \<or> snd (csv_reader (strip text)) = CsvError"
  shows "process_csv_response fmt text = PDict [(''raw_text'', PStr (strip text))]
    \<and> process_csv_response fmt text \<noteq> PList []"
proof -
  have empty: "fst (csv_reader []) = []"
    by (simp add: csv_reader_def lines_of.simps read_rows.simps parse_reset_def)
  obtain rows e where c: "csv_reader (strip text) = (rows, e)"
    by (cases "csv_reader (strip text)")
  have "rows = [] \<or> (\<exists>rest. rows = [] # rest) \<or> e = CsvError"
    using assms c empty by auto
  then have "process_csv_response fmt text = PDict [(''raw_text'', PStr (strip text))]"
    by (auto simp: process_csv_response_def Let_def c split: list.splits)
  then show ?thesis by simp
qed

theorem degraded_text_gives_raw_wrapper_witness:
  "process_csv_response OUTPUT_FORMAT_CSV [CHR ''a'', CHR 0x0D, CHR ''b'']
     = PDict [(''raw_text'', PStr [CHR ''a'', CHR 0x0D, CHR ''b''])]
   \<and> process_csv_response OUTPUT_FORMAT_JSON [] = PDict [(''raw_text'', PStr [])]"
proof -
  have s: "strip [CHR ''a'', CHR 0x0D, CHR ''b''] = [CHR ''a'', CHR 0x0D, CHR ''b'']"
    by (simp add: strip_def is_space_def)
  have "snd (csv_reader (strip [CHR ''a'', CHR 0x0D, CHR ''b''])) = CsvError"
    unfolding s
    by (simp add: csv_reader_def parse_reset_def lines_of.simps read_rows.simps
        parse_process_char_def in_start_field_def parse_add_char_def parse_save_field_def
        is_newline_def field_limit_def)
  then have a: "strip [CHR ''a'', CHR 0x0D, CHR ''b''] = []
      \<or> fst (csv_reader (strip [CHR ''a'', CHR 0x0D, CHR ''b''])) = []
      \<or> (\<exists>rows. fst (csv_reader (strip [CHR ''a'', CHR 0x0D, CHR ''b''])) = [] # rows)
      \<or> snd (csv_reader (strip [CHR ''a'', CHR 0x0D, CHR ''b''])) = CsvError"
    by (intro disjI2)
  have e: "strip [] = []" by (simp add: strip_def)
  then have b: "strip [] = []
      \<or> fst (csv_reader (strip [])) = []
      \<or> (\<exists>rows. fst (csv_reader (strip [])) = [] # rows)
      \<or> snd (csv_reader (strip [])) = CsvError"
    by (intro disjI1)
  show ?thesis
    using degraded_text_gives_raw_wrapper [OF a, of OUTPUT_FORMAT_CSV]
      degraded_text_gives_raw_wrapper [OF b, of OUTPUT_FORMAT_JSON]
    unfolding s e by (intro conjI) simp_all
qed

text \<open>
  C6, as the spec states it, fails on a value with whitespace at an end: the re-parsed
  record has the value stripped. The day partition of the one record
  \<open>{"datum": "2024-05-01", "pkw": " 5"}\<close> comes back with \<open>pkw\<close> equal to \<open>"5"\<close>.
\<close>

theorem csv_round_trip_counterexample:
  "day_csv (py_str env_unavailable) (PList [PDict [(''datum'', PStr ''2024-05-01''), (''pkw'', PStr '' 5'')]])
     = Some (writerow crlf [''datum'', ''pkw''] @ writerow crlf [''2024-05-01'', '' 5''])
   \<and> process_csv_response OUTPUT_FORMAT_JSON
        (writerow crlf [''datum'', ''pkw''] @ writerow crlf [''2024-05-01'', '' 5''])
       = PList [PDict [(''datum'', PStr ''2024-05-01''), (''pkw'', PStr ''5'')]]
   \<and> PList [PDict [(''datum'', PStr ''2024-05-01''), (''pkw'', PStr ''5'')]]
       \<noteq> PList [PDict [(''datum'', PStr ''2024-05-01''), (''pkw'', PStr '' 5'')]]"
proof -
  have rows: "\<forall>row \<in> set [[''datum'', ''pkw''], [''2024-05-01'', '' 5'']].
      row \<noteq> [] \<and> (\<forall>x \<in> set row. length x \<le> field_limit)"
    by (simp add: field_limit_def)
  define csv where "csv = concat (map (writerow crlf) [[''datum'', ''pkw''], [''2024-05-01'', '' 5'']])"
  have shape: "writerow crlf [''datum'', ''pkw''] @ writerow crlf [''2024-05-01'', '' 5''] = csv"
    by (simp add: csv_def)
  have read: "csv_reader (strip csv) = ([[''datum'', ''pkw''], [''2024-05-01'', '' 5'']], StopIteration)"
    unfolding csv_def by (rule csv_reader_rows_text [OF rows])
  have written: "day_csv (py_str env_unavailable)
        (PList [PDict [(''datum'', PStr ''2024-05-01''), (''pkw'', PStr '' 5'')]])
      = Some (writerow crlf [''datum'', ''pkw''] @ writerow crlf [''2024-05-01'', '' 5''])"
    by (simp add: day_csv_def field_text_def)
  have headers: "strip ''datum'' = ''datum''" "strip ''pkw'' = ''pkw''"
    by (simp_all add: strip_def is_space_def)
  have entry: "make_entry [''datum'', ''pkw''] [''2024-05-01'', '' 5'']
      = PDict [(''datum'', PStr ''2024-05-01''), (''pkw'', PStr ''5'')]"
    by (simp add: make_entry_def strip_def is_space_def)
  have parsed: "process_csv_response OUTPUT_FORMAT_JSON
        (writerow crlf [''datum'', ''pkw''] @ writerow crlf [''2024-05-01'', '' 5''])
      = PList [PDict [(''datum'', PStr ''2024-05-01''), (''pkw'', PStr ''5'')]]"
    unfolding shape
    by (simp add: process_csv_response_def Let_def read row_ok_def headers entry)
  show ?thesis using written parsed by simp
qed

text \<open>
  C6, amended. For a non-empty day partition whose records all have the same field
  names in the same order, at least one field, and for field names and values only
  strings without whitespace at either end and within the field limit of the reader:
  the CSV text written for the partition (header from the field names of the first
  record, every field quoted), parsed again on the JSON path of
  \<open>process_csv_response\<close>, gives the records of the partition, field for field and in
  order.
\<close>

theorem csv_round_trip:
  assumes "recs \<noteq> []" and "hs \<noteq> []" and "distinct hs"
    and "\<forall>h \<in> set hs. clean h"
    and "\<forall>r \<in> set recs. clean_record hs r"
  shows "\<exists>csv. day_csv str (PList recs) = Some csv
           \<and> process_csv_response OUTPUT_FORMAT_JSON csv = PList recs"
proof -
  obtain r rs where recs: "recs = r # rs" using assms(1) by (cases recs) auto
  obtain first where r: "r = PDict first" and keys: "map fst first = hs"
    using assms(5) recs by (auto elim: clean_recordD)
  let ?rows = "map (row_of str) recs"
  define csv where "csv = concat (map (writerow crlf) (hs # ?rows))"
  have written: "day_csv str (PList recs) = Some csv"
    using writerows_clean [OF assms(3,5), of str] recs r keys
    by (simp add: day_csv_def Let_def csv_def)
  have ok: "\<forall>row \<in> set (hs # ?rows). row \<noteq> [] \<and> (\<forall>x \<in> set row. length x \<le> field_limit)"
  proof
    fix row assume "row \<in> set (hs # ?rows)"
    then consider "row = hs" | x where "x \<in> set recs" "row = row_of str x" by auto
    then show "row \<noteq> [] \<and> (\<forall>x \<in> set row. length x \<le> field_limit)"
    proof cases
      case 1
      then show ?thesis using assms(2,4) by (simp add: clean_def)
    next
      case 2
      have "clean_record hs x" using assms(5) 2(1) by blast
      then show ?thesis
        using row_of_clean(2,3) [OF assms(3), of x str] assms(2) 2(2) by auto
    qed
  qed
  have read: "csv_reader (strip csv) = (hs # ?rows, StopIteration)"
    unfolding csv_def by (rule csv_reader_rows_text [OF ok])
  have headers: "map strip hs = hs"
    using assms(4) by (simp add: clean_def map_idI)
  have kept: "filter (row_ok hs) ?rows = ?rows"
  proof -
    have "row_ok hs (row_of str x)" if "x \<in> set recs" for x
      using row_of_clean(2) [OF assms(3), of x str] assms(2,5) that
      by (auto simp: row_ok_def)
    then show ?thesis by (simp add: filter_id_conv)
  qed
  have entries: "map (make_entry hs \<circ> row_of str) recs = recs"
    using row_of_clean(1) [OF assms(3), of _ str] assms(5) by (intro map_idI) simp
  have "process_csv_response OUTPUT_FORMAT_JSON csv = PList recs"
    using assms(2) by (simp add: process_csv_response_def Let_def read headers kept entries)
  then show ?thesis using written by blast
qed

theorem csv_round_trip_witness:
  "\<exists>csv. day_csv (py_str env_unavailable)
            (PList [PDict [(''pkw'', PStr ''12''), (''datum'', PStr ''05/01/2024 10:00''), (''ID'', PStr ''a b'')],
                    PDict [(''pkw'', PStr ''''), (''datum'', PStr ''05/01/2024 11:00''), (''ID'', PStr [CHR 0x22])]])
            = Some csv
         \<and> process_csv_response OUTPUT_FORMAT_JSON csv
            = PList [PDict [(''pkw'', PStr ''12''), (''datum'', PStr ''05/01/2024 10:00''), (''ID'', PStr ''a b'')],
                     PDict [(''pkw'', PStr ''''), (''datum'', PStr ''05/01/2024 11:00''), (''ID'', PStr [CHR 0x22])]]"
proof -
  let ?recs = "[PDict [(''pkw'', PStr ''12''), (''datum'', PStr ''05/01/2024 10:00''), (''ID'', PStr ''a b'')],
                PDict [(''pkw'', PStr ''''), (''datum'', PStr ''05/01/2024 11:00''), (''ID'', PStr [CHR 0x22])]]"
  let ?hs = "[''pkw'', ''datum'', ''ID'']"
  have a1: "?recs \<noteq> []" by simp
  have a2: "?hs \<noteq> []" by simp
  have a3: "distinct ?hs" by simp
  have a4: "\<forall>h \<in> set ?hs. clean h"
    by (simp add: clean_def strip_def is_space_def field_limit_def)
  have a5: "\<forall>r \<in> set ?recs. clean_record ?hs r"
    by (simp add: clean_record_def clean_def strip_def is_space_def field_limit_def)
  show ?thesis by (rule csv_round_trip [OF a1 a2 a3 a4 a5])
qed

end
